theory Spec2Isabelle
  imports Complex_Main "HOL-Library.AList"
begin

section \<open>Errors\<close>

text \<open>
  The exceptions the modelled functions raise.  A function that can raise returns
  \<open>error + 'a\<close>, with \<open>Inl\<close> for the exception.  \<open>OtherDtype\<close> is not an
  exception: it marks the one place where the model stops, an array that numpy does not
  build as an array of 64-bit integers (see \<open>np_array\<close> below).
\<close>

datatype error =
    RuntimeError
  | ValueError
  | IndexError
  | KeyError
  | NotImplementedError
  | OverflowError
  | OtherDtype

section \<open>Kernels (sumpy/kernel.py)\<close>

text \<open>
  Kernel objects are never mutated after construction, so an object is modelled as a
  tree.  Python's object identity (\<open>is\<close>, and the default \<open>==\<close> of a class that
  defines no \<open>__eq__\<close>) is kept by giving every object the identity \<open>oid\<close> it
  received from the allocator when it was constructed.  The attribute \<open>dimensions\<close>
  is \<open>None\<close> or an integer.  The \<open>derivative_expression\<close> of the directional
  derivatives is a pymbolic expression; only its text is kept.
\<close>

type_synonym oid = nat

datatype kernel =
    LaplaceKernel oid "int option"
  | HelmholtzKernel oid "int option" string bool
  | DifferenceKernel oid kernel kernel "int option"
  | AxisTargetDerivative oid int kernel "int option"
  | DirectionalTargetDerivative oid kernel string "int option"
  | DirectionalSourceDerivative oid kernel string "int option"

fun oid_of :: "kernel \<Rightarrow> oid" where
  "oid_of (LaplaceKernel i d) = i"
| "oid_of (HelmholtzKernel i d nm ev) = i"
| "oid_of (DifferenceKernel i kp km d) = i"
| "oid_of (AxisTargetDerivative i ax k d) = i"
| "oid_of (DirectionalTargetDerivative i k e d) = i"
| "oid_of (DirectionalSourceDerivative i k e d) = i"

fun dimensions :: "kernel \<Rightarrow> int option" where
  "dimensions (LaplaceKernel i d) = d"
| "dimensions (HelmholtzKernel i d nm ev) = d"
| "dimensions (DifferenceKernel i kp km d) = d"
| "dimensions (AxisTargetDerivative i ax k d) = d"
| "dimensions (DirectionalTargetDerivative i k e d) = d"
| "dimensions (DirectionalSourceDerivative i k e d) = d"

text \<open>\<open>isinstance(k, KernelWrapper)\<close>: the three derivative classes.\<close>

fun is_KernelWrapper :: "kernel \<Rightarrow> bool" where
  "is_KernelWrapper (AxisTargetDerivative i ax k d) = True"
| "is_KernelWrapper (DirectionalTargetDerivative i k e d) = True"
| "is_KernelWrapper (DirectionalSourceDerivative i k e d) = True"
| "is_KernelWrapper k = False"

text \<open>
  \<open>Kernel.get_base_kernel\<close> returns \<open>self\<close>; \<open>KernelWrapper.get_base_kernel\<close>
  returns \<open>self.kernel.get_base_kernel()\<close>.  \<open>DifferenceKernel\<close> derives from
  \<open>Kernel\<close> directly and inherits the first.
\<close>

fun get_base_kernel :: "kernel \<Rightarrow> kernel" where
  "get_base_kernel (AxisTargetDerivative i ax k d) = get_base_kernel k"
| "get_base_kernel (DirectionalTargetDerivative i k e d) = get_base_kernel k"
| "get_base_kernel (DirectionalSourceDerivative i k e d) = get_base_kernel k"
| "get_base_kernel k = k"

text \<open>\<open>a is b\<close>.\<close>

definition py_is :: "kernel \<Rightarrow> kernel \<Rightarrow> bool" where
  "py_is a b = (oid_of a = oid_of b)"



subsection \<open>Construction\<close>






text \<open>
  \<open>DifferenceKernel.__init__\<close>: two checks, each raising \<open>ValueError\<close>, then the
  fields and \<open>Kernel.__init__(self, self.kernel_plus.dimensions)\<close>.  The object exists
  (and has its identity) before \<open>__init__\<close> runs, but an exception leaves no reference
  to it.
\<close>

definition new_DifferenceKernel :: "kernel \<Rightarrow> kernel \<Rightarrow> oid \<Rightarrow> error + (kernel \<times> oid)" where
  "new_DifferenceKernel kernel_plus kernel_minus n =
     (if \<not> py_is (get_base_kernel kernel_plus) kernel_plus
         \<or> \<not> py_is (get_base_kernel kernel_minus) kernel_minus
      then Inl ValueError
      else if dimensions kernel_plus \<noteq> dimensions kernel_minus
      then Inl ValueError
      else Inr (DifferenceKernel n kernel_plus kernel_minus (dimensions kernel_plus), Suc n))"

text \<open>
  An object built by the constructors from allocator states below \<open>n\<close>: every identity
  in it is below \<open>n\<close>, and a wrapped object is older than the object wrapping it.
\<close>

fun allocated :: "oid \<Rightarrow> kernel \<Rightarrow> bool" where
  "allocated n (LaplaceKernel i d) = (i < n)"
| "allocated n (HelmholtzKernel i d nm ev) = (i < n)"
| "allocated n (DifferenceKernel i kp km d) = (i < n \<and> allocated i kp \<and> allocated i km)"
| "allocated n (AxisTargetDerivative i ax k d) = (i < n \<and> allocated i k)"
| "allocated n (DirectionalTargetDerivative i k e d) = (i < n \<and> allocated i k)"
| "allocated n (DirectionalSourceDerivative i k e d) = (i < n \<and> allocated i k)"

subsection \<open>Program states, equality and hashing\<close>






subsection \<open>Scaling\<close>

text \<open>
  \<open>get_scaling\<close> returns an exact symbolic constant; its value is a complex number.
  \<open>LaplaceKernel\<close>: \<open>1/(-2*pi)\<close>, \<open>1/(4*pi)\<close>; \<open>HelmholtzKernel\<close>: \<open>I/4\<close>,
  \<open>1/(4*pi)\<close>; anything else raises \<open>RuntimeError("unsupported dimensionality")\<close>.
  \<open>Kernel.get_scaling\<close> (inherited by \<open>DifferenceKernel\<close>) raises
  \<open>NotImplementedError\<close>; a wrapper asks the wrapped kernel.
\<close>

fun get_scaling :: "kernel \<Rightarrow> error + complex" where
  "get_scaling (LaplaceKernel i d) =
     (if d = Some 2 then Inr (1 / (- 2 * of_real pi))
      else if d = Some 3 then Inr (1 / (4 * of_real pi))
      else Inl RuntimeError)"
| "get_scaling (HelmholtzKernel i d nm ev) =
     (if d = Some 2 then Inr (\<i> / 4)
      else if d = Some 3 then Inr (1 / (4 * of_real pi))
      else Inl RuntimeError)"
| "get_scaling (DifferenceKernel i kp km d) = Inl NotImplementedError"
| "get_scaling (AxisTargetDerivative i ax k d) = get_scaling k"
| "get_scaling (DirectionalTargetDerivative i k e d) = get_scaling k"
| "get_scaling (DirectionalSourceDerivative i k e d) = get_scaling k"

section \<open>The integers of numpy\<close>

text \<open>
  A multi-index is a tuple of Python integers, which are unbounded.  numpy turns a tuple
  into an array of signed 64-bit integers (its default integer type), and arithmetic on
  such an array, and on the scalars read from it, wraps around silently.
\<close>

type_synonym multi_index = "int list"

definition int64 :: "int \<Rightarrow> bool" where
  "int64 x = (- (2 ^ 63) \<le> x \<and> x < 2 ^ 63)"

definition wrap64 :: "int \<Rightarrow> int" where
  "wrap64 x = (x + 2 ^ 63) mod 2 ^ 64 - 2 ^ 63"

text \<open>
  \<open>np.array(t)\<close> of a tuple of integers.  When an entry does not fit 64 bits numpy
  chooses another element type (unsigned, floating point or Python objects, by the
  entries and by its version), with another arithmetic; the model stops there with
  \<open>OtherDtype\<close>.
\<close>

definition np_array :: "multi_index \<Rightarrow> error + int list" where
  "np_array t = (if list_all int64 t then Inr t else Inl OtherDtype)"

text \<open>\<open>np.array(t, dtype=int)\<close> raises \<open>OverflowError\<close> for an entry that does not fit.\<close>

definition np_array_int :: "multi_index \<Rightarrow> error + int list" where
  "np_array_int t = (if list_all int64 t then Inr t else Inl OverflowError)"

section \<open>Expansions (sumpy/expansion/__init__.py)\<close>

text \<open>
  \<open>xs.index(x)\<close>: the position of the first element equal to \<open>x\<close>; \<open>None\<close> stands
  for the \<open>ValueError\<close> raised when there is none.
\<close>

fun py_index :: "'a list \<Rightarrow> 'a \<Rightarrow> nat option" where
  "py_index [] x = None"
| "py_index (y # ys) x = (if y = x then Some 0 else map_option Suc (py_index ys x))"

subsection \<open>The Laplace recurrence\<close>

text \<open>
  The inner loop over \<open>other_dim in range(self.kernel.dim)\<close>, building
  \<open>needed_derivs\<close> from \<open>reduced_deriv\<close>.  \<open>needed_deriv[other_dim] += 2\<close> on a
  numpy array raises \<open>IndexError\<close> when \<open>other_dim\<close> is out of range, and wraps
  around.
\<close>

fun needed_derivs :: "multi_index \<Rightarrow> nat \<Rightarrow> nat list \<Rightarrow> error + multi_index list" where
  "needed_derivs reduced_deriv dim' [] = Inr []"
| "needed_derivs reduced_deriv dim' (other_dim # rest) =
     (if other_dim = dim' then needed_derivs reduced_deriv dim' rest
      else if length reduced_deriv \<le> other_dim then Inl IndexError
      else (case needed_derivs reduced_deriv dim' rest of
              Inl e \<Rightarrow> Inl e
            | Inr nds \<Rightarrow>
                Inr (reduced_deriv[other_dim := wrap64 (reduced_deriv ! other_dim + 2)]
                       # nds)))"

text \<open>
  The \<open>try\<close> block: for each needed multi-index, \<open>in_terms_of.index\<close> and
  \<open>expr[deriv_idx] = -1\<close>.  A \<open>ValueError\<close> of \<open>index\<close> is caught and abandons the
  axis (\<open>Inr None\<close>); the \<open>IndexError\<close> of a store beyond \<open>ncoeffs\<close> is not caught.
\<close>

fun assign_needed :: "multi_index list \<Rightarrow> multi_index list \<Rightarrow> int list \<Rightarrow> error + int list option"
  where
  "assign_needed in_terms_of [] expr = Inr (Some expr)"
| "assign_needed in_terms_of (needed_deriv # rest) expr =
     (case py_index in_terms_of needed_deriv of
        None \<Rightarrow> Inr None
      | Some deriv_idx \<Rightarrow>
          if deriv_idx < length expr
          then assign_needed in_terms_of rest (expr[deriv_idx := - 1])
          else Inl IndexError)"

text \<open>
  The outer loop over the axes \<open>np.nonzero(2 <= deriv)[0]\<close>, in increasing order.
  Falling off the end of the loop returns \<open>None\<close>.
\<close>

fun try_axes ::
  "nat \<Rightarrow> multi_index \<Rightarrow> multi_index list \<Rightarrow> nat \<Rightarrow> nat list \<Rightarrow> error + int list option" where
  "try_axes kernel_dim deriv in_terms_of ncoeffs [] = Inr None"
| "try_axes kernel_dim deriv in_terms_of ncoeffs (dim' # dims) =
     (case needed_derivs (deriv[dim' := wrap64 (deriv ! dim' - 2)]) dim' [0..<kernel_dim] of
        Inl e \<Rightarrow> Inl e
      | Inr nds \<Rightarrow>
          (case assign_needed in_terms_of nds (replicate ncoeffs 0) of
             Inl e \<Rightarrow> Inl e
           | Inr None \<Rightarrow> try_axes kernel_dim deriv in_terms_of ncoeffs dims
           | Inr (Some expr) \<Rightarrow> Inr (Some expr)))"

text \<open>
  \<open>LaplaceConformingVolumeTaylorExpansion.try_get_recurrence_for_derivative\<close>, with
  \<open>self.kernel.dim\<close> as the first argument.  The first statement is
  \<open>deriv = np.array(deriv)\<close>.
\<close>

definition try_get_recurrence_for_derivative ::
  "nat \<Rightarrow> multi_index \<Rightarrow> multi_index list \<Rightarrow> nat \<Rightarrow> error + int list option" where
  "try_get_recurrence_for_derivative kernel_dim deriv in_terms_of ncoeffs =
     (case np_array deriv of
        Inl e \<Rightarrow> Inl e
      | Inr deriv_array \<Rightarrow>
          try_axes kernel_dim deriv_array in_terms_of ncoeffs
            (filter (\<lambda>dim'. 2 \<le> deriv_array ! dim') [0..<length deriv_array]))"

text \<open>
  The specification's reading of the Laplace rule, to compare with the code: the
  multi-indices axis \<open>k\<close> needs (in the arithmetic of the integers), whether axis \<open>k\<close>
  can be reduced, and the relation that gives coefficient \<open>-1\<close> to the position of each
  needed multi-index.
\<close>

definition laplace_needed :: "nat \<Rightarrow> multi_index \<Rightarrow> nat \<Rightarrow> multi_index list" where
  "laplace_needed kernel_dim d k =
     map (\<lambda>j. (d[k := d ! k - 2])[j := (d[k := d ! k - 2]) ! j + 2])
       (filter (\<lambda>j. j \<noteq> k) [0..<kernel_dim])"

definition laplace_axis_reducible ::
  "nat \<Rightarrow> multi_index \<Rightarrow> multi_index list \<Rightarrow> nat \<Rightarrow> bool" where
  "laplace_axis_reducible kernel_dim d identifiers_so_far k =
     (k < length d \<and> 2 \<le> d ! k
      \<and> list_all (\<lambda>nd. nd \<in> set identifiers_so_far) (laplace_needed kernel_dim d k))"

definition laplace_relation :: "nat \<Rightarrow> multi_index list \<Rightarrow> multi_index list \<Rightarrow> int list" where
  "laplace_relation ncoeffs identifiers_so_far needed =
     map (\<lambda>i. if i \<in> set (List.map_filter (py_index identifiers_so_far) needed) then - 1 else 0)
       [0..<ncoeffs]"

subsection \<open>The coefficient matrix\<close>

text \<open>
  \<open>generate_nonnegative_integer_tuples_summing_to_at_most(n, length)\<close> belongs to the
  pytools library, not to this repository.  It is written here as that library defines
  it: for \<open>length = 0\<close> the empty tuple, otherwise for \<open>i\<close> in \<open>range(n+1)\<close> and for
  every \<open>base\<close> of \<open>(n-i, length-1)\<close>, the tuple \<open>base + (i,)\<close>; the first entry
  varies fastest.
\<close>

fun gnitstam :: "int \<Rightarrow> nat \<Rightarrow> multi_index list" where
  "gnitstam n 0 = [[]]"
| "gnitstam n (Suc l) = concat (map (\<lambda>i. map (\<lambda>base. base @ [i]) (gnitstam (n - i) l)) [0..n])"

text \<open>
  \<open>get_full_coefficient_identifiers\<close>: \<open>sorted(gnitstam(self.order, self.kernel.dim),
  key=sum)\<close>.  Python's sort is stable, as \<open>sort_key\<close> is.
\<close>

definition get_full_coefficient_identifiers :: "int \<Rightarrow> nat \<Rightarrow> multi_index list" where
  "get_full_coefficient_identifiers order kernel_dim = sort_key sum_list (gnitstam order kernel_dim)"

text \<open>
  \<open>np.dot(np.transpose(coeff_matrix), v)\<close> for a list of \<open>length coeff_matrix\<close> rows of
  \<open>ncoeffs\<close> entries each and a vector of \<open>length coeff_matrix\<close> entries: entry \<open>c\<close>
  is the sum over the rows \<open>r\<close> of \<open>coeff_matrix[r][c] * v[r]\<close>.
\<close>

definition np_dot_transpose :: "'a::semiring_1 list list \<Rightarrow> 'a list \<Rightarrow> nat \<Rightarrow> 'a list" where
  "np_dot_transpose coeff_matrix v ncoeffs =
     map (\<lambda>c. sum_list (map (\<lambda>r. coeff_matrix ! r ! c * v ! r) [0..<length coeff_matrix]))
       [0..<ncoeffs]"

text \<open>
  The state of the loop of \<open>precompute_coeff_matrix\<close>.
\<close>

record 'a precompute_state =
  stored_identifiers :: "multi_index list"
  identifiers_so_far :: "multi_index list"
  coeff_matrix :: "'a list list"

text \<open>
  The loop "build up the matrix by row".  The recurrence oracle is the method
  \<open>try_get_recurrence_for_derivative\<close> of the subclass, a parameter here.
  \<^item> No recurrence: \<open>row[len(stored_identifiers)] = 1\<close> raises \<open>IndexError\<close> beyond
    \<open>ncoeffs\<close>.
  \<^item> A recurrence \<open>expr\<close>: \<open>np.dot\<close> raises \<open>ValueError\<close> when \<open>expr[:ncoeffs_so_far]\<close>
    is shorter than \<open>ncoeffs_so_far\<close>.  With no row yet, \<open>np.dot\<close> of two empty arrays
    is a scalar, not a row; what numpy then does with a list mixing scalars and rows is
    outside this model, which stops with \<open>ScalarRow\<close>.  (Neither oracle of the source
    returns a recurrence when \<open>in_terms_of\<close> is empty and the kernel has at least two
    dimensions.)
\<close>

datatype precompute_error = Raised error | ScalarRow

fun precompute_loop ::
  "(multi_index \<Rightarrow> multi_index list \<Rightarrow> nat \<Rightarrow> error + 'a::semiring_1 list option) \<Rightarrow> nat \<Rightarrow>
     multi_index list \<Rightarrow> 'a precompute_state \<Rightarrow> precompute_error + 'a precompute_state" where
  "precompute_loop oracle ncoeffs [] st = Inr st"
| "precompute_loop oracle ncoeffs (identifier # rest) st =
     (case oracle identifier (identifiers_so_far st) ncoeffs of
        Inl e \<Rightarrow> Inl (Raised e)
      | Inr None \<Rightarrow>
          if length (stored_identifiers st) < ncoeffs
          then precompute_loop oracle ncoeffs rest
                 \<lparr>stored_identifiers = stored_identifiers st @ [identifier],
                  identifiers_so_far = identifiers_so_far st @ [identifier],
                  coeff_matrix = coeff_matrix st
                     @ [(replicate ncoeffs 0)[length (stored_identifiers st) := 1]]\<rparr>
          else Inl (Raised IndexError)
      | Inr (Some expr) \<Rightarrow>
          if coeff_matrix st = [] then Inl ScalarRow
          else if length expr < length (coeff_matrix st) then Inl (Raised ValueError)
          else precompute_loop oracle ncoeffs rest
                 \<lparr>stored_identifiers = stored_identifiers st,
                  identifiers_so_far = identifiers_so_far st @ [identifier],
                  coeff_matrix = coeff_matrix st
                     @ [np_dot_transpose (coeff_matrix st)
                          (take (length (coeff_matrix st)) expr) ncoeffs]\<rparr>)"

text \<open>
  \<open>precompute_coeff_matrix\<close>, returning \<open>(self.stored_identifiers, self.coeff_matrix)\<close>.
  \<open>np.vstack\<close> of an empty list raises \<open>ValueError\<close>.
\<close>

definition precompute_coeff_matrix ::
  "(multi_index \<Rightarrow> multi_index list \<Rightarrow> nat \<Rightarrow> error + 'a::semiring_1 list option) \<Rightarrow>
     multi_index list \<Rightarrow> precompute_error + (multi_index list \<times> 'a list list)" where
  "precompute_coeff_matrix oracle full_identifiers =
     (case precompute_loop oracle (length full_identifiers) full_identifiers
             \<lparr>stored_identifiers = [], identifiers_so_far = [], coeff_matrix = []\<rparr> of
        Inl e \<Rightarrow> Inl e
      | Inr st \<Rightarrow>
          if coeff_matrix st = [] then Inl (Raised ValueError)
          else Inr (stored_identifiers st,
                    map (take (length (stored_identifiers st))) (coeff_matrix st)))"

text \<open>
  A \<open>LaplaceConformingVolumeTaylorExpansion\<close> of a kernel of dimension \<open>kernel_dim\<close> and
  of order \<open>order\<close>, as its constructor leaves it.
\<close>

definition laplace_expansion ::
  "nat \<Rightarrow> int \<Rightarrow> precompute_error + (multi_index list \<times> int list list)" where
  "laplace_expansion kernel_dim order =
     precompute_coeff_matrix (try_get_recurrence_for_derivative kernel_dim)
       (get_full_coefficient_identifiers order kernel_dim)"

text \<open>The unit vector \<open>e_j\<close> of length \<open>n\<close>.\<close>

definition unit_row :: "nat \<Rightarrow> nat \<Rightarrow> 'a::semiring_1 list" where
  "unit_row n j = map (\<lambda>c. if c = j then 1 else 0) [0..<n]"

text \<open>
  The invariant of the loop of \<open>precompute_coeff_matrix\<close>: one row of \<open>ncoeffs\<close>
  entries per identifier processed, the stored identifiers are a subsequence of these, and
  the rows of the stored identifiers are the unit vectors, in order.
\<close>

definition precompute_inv :: "nat \<Rightarrow> 'a::semiring_1 precompute_state \<Rightarrow> bool" where
  "precompute_inv ncoeffs st \<longleftrightarrow>
     length (coeff_matrix st) = length (identifiers_so_far st)
   \<and> list_all (\<lambda>row. length row = ncoeffs) (coeff_matrix st)
   \<and> length (stored_identifiers st) \<le> ncoeffs
   \<and> stored_identifiers st =
       filter (\<lambda>i. i \<in> set (stored_identifiers st)) (identifiers_so_far st)
   \<and> map snd (filter (\<lambda>p. fst p \<in> set (stored_identifiers st))
                 (zip (identifiers_so_far st) (coeff_matrix st)))
       = map (\<lambda>j. (replicate ncoeffs 0)[j := 1]) [0..<length (stored_identifiers st)]"

section \<open>The derivative cache (sumpy/tools.py)\<close>

text \<open>
  The symbolic engine is an outside library.  An expression is kept as the term the code
  builds, unevaluated: \<open>Diff e v\<close> is \<open>e.diff(v)\<close>, \<open>Add es\<close> is \<open>Add(*es)\<close> and
  \<open>Mul c e\<close> is \<open>c * e\<close>.  Variables are named by strings.
\<close>

datatype sym_expr =
    Sym string
  | Num int
  | Diff sym_expr string
  | Add "sym_expr list"
  | Mul sym_expr sym_expr

text \<open>
  \<open>cache_by_mi\<close> is a dictionary keyed by tuples.  It is kept as an association list
  in insertion order, the order in which \<open>keys()\<close> iterates: \<open>map_of\<close> reads it, and
  \<open>AList.update\<close> writes it (a new key goes to the end, an existing key keeps its place).
\<close>

type_synonym mi_cache = "(multi_index \<times> sym_expr) list"

record MiDerivativeTaker =
  var_list :: "string list"
  cache_by_mi :: mi_cache

text \<open>\<open>MiDerivativeTaker.__init__\<close>.\<close>

definition MiDerivativeTaker_init :: "sym_expr \<Rightarrow> string list \<Rightarrow> MiDerivativeTaker" where
  "MiDerivativeTaker_init expr vars =
     \<lparr>var_list = vars, cache_by_mi = [(replicate (length vars) 0, expr)]\<rparr>"

text \<open>
  An elementwise operation of two one-dimensional numpy arrays, with numpy's broadcasting:
  equal lengths, or one of the two of length 1; anything else raises \<open>ValueError\<close>.
\<close>

definition np_binop :: "(int \<Rightarrow> int \<Rightarrow> 'a) \<Rightarrow> int list \<Rightarrow> int list \<Rightarrow> error + 'a list" where
  "np_binop f a b =
     (if length a = length b then Inr (map2 f a b)
      else if length a = 1 then Inr (map (f (hd a)) b)
      else if length b = 1 then Inr (map (\<lambda>x. f x (hd b)) a)
      else Inl ValueError)"

text \<open>
  \<open>mi_dist(a, b)\<close>: \<open>np.array(a, dtype=int) - np.array(b, dtype=int)\<close>, a
  subtraction of 64-bit integers.
\<close>

definition mi_dist :: "multi_index \<Rightarrow> multi_index \<Rightarrow> error + int list" where
  "mi_dist a b =
     (case np_array_int a of
        Inl e \<Rightarrow> Inl e
      | Inr a_array \<Rightarrow>
          (case np_array_int b of
             Inl e \<Rightarrow> Inl e
           | Inr b_array \<Rightarrow> np_binop (\<lambda>x y. wrap64 (x - y)) a_array b_array))"

text \<open>
  \<open>sum(xs)\<close> of the elements of an array of 64-bit integers: Python's \<open>sum\<close> starts
  from 0 and adds the elements one by one, and each addition of two 64-bit values wraps
  around.
\<close>

definition py_sum :: "int list \<Rightarrow> int" where
  "py_sum xs = fold (\<lambda>x acc. wrap64 (acc + x)) xs 0"

text \<open>
  The test of the generator expression of \<open>get_closest_cached_mi\<close>,
  \<open>(np.array(mi) >= np.array(other_mi)).all()\<close>.
\<close>

definition dominates :: "multi_index \<Rightarrow> multi_index \<Rightarrow> error + bool" where
  "dominates mi other_mi =
     (case np_array mi of
        Inl e \<Rightarrow> Inl e
      | Inr mi_array \<Rightarrow>
          (case np_array other_mi of
             Inl e \<Rightarrow> Inl e
           | Inr other_array \<Rightarrow>
               (case np_binop (\<lambda>x y. y \<le> x) mi_array other_array of
                  Inl e \<Rightarrow> Inl e
                | Inr ge \<Rightarrow> Inr (list_all id ge))))"

text \<open>
  The generator expression, each key it lets through paired with the value of the
  \<open>key\<close> function of \<open>min\<close>, \<open>sum(self.mi_dist(mi, other_mi))\<close>.
\<close>

fun dominated_keys :: "multi_index \<Rightarrow> multi_index list \<Rightarrow> error + (multi_index \<times> int) list" where
  "dominated_keys mi [] = Inr []"
| "dominated_keys mi (other_mi # rest) =
     (case dominates mi other_mi of
        Inl e \<Rightarrow> Inl e
      | Inr True \<Rightarrow>
          (case mi_dist mi other_mi of
             Inl e \<Rightarrow> Inl e
           | Inr d \<Rightarrow>
               (case dominated_keys mi rest of
                  Inl e \<Rightarrow> Inl e
                | Inr ks \<Rightarrow> Inr ((other_mi, py_sum d) # ks)))
      | Inr False \<Rightarrow> dominated_keys mi rest)"

text \<open>
  \<open>min(xs, key=f)\<close> with the values of \<open>f\<close> paired to the elements: the first element
  with the least key; \<open>ValueError\<close> on an empty sequence.
\<close>

definition py_min_key :: "('a \<times> int) list \<Rightarrow> error + 'a" where
  "py_min_key xs =
     (case xs of
        [] \<Rightarrow> Inl ValueError
      | x # rest \<Rightarrow> Inr (fst (fold (\<lambda>y m. if snd y < snd m then y else m) rest x)))"

definition get_closest_cached_mi :: "mi_cache \<Rightarrow> multi_index \<Rightarrow> error + multi_index" where
  "get_closest_cached_mi cache mi =
     (case dominated_keys mi (map fst cache) of
        Inl e \<Rightarrow> Inl e
      | Inr ks \<Rightarrow> py_min_key ks)"

text \<open>
  The generator \<open>get_derivative_taking_sequence\<close>.  A generator is modelled by the list of
  the items it yields and the exception that ends it, if any.  \<open>steps_on_axis\<close> is the
  inner loop \<open>for i in range(1, 1 + mi_i)\<close>, which also returns \<open>current_mi\<close>;
  \<open>current_mi[idx] += 1\<close> raises \<open>IndexError\<close> out of range, and wraps around.  The
  bound \<open>1 + mi_i\<close> of the range is a sum of 64-bit integers too, and the range has
  its bound minus one elements, or none.  \<open>current_mi\<close> starts as
  \<open>np.array(start_mi, dtype=int)\<close>.
\<close>

fun steps_on_axis ::
  "nat \<Rightarrow> string \<Rightarrow> nat \<Rightarrow> multi_index \<Rightarrow> (string \<times> multi_index) list \<times> multi_index \<times> error option"
  where
  "steps_on_axis idx vec_i 0 current_mi = ([], current_mi, None)"
| "steps_on_axis idx vec_i (Suc k) current_mi =
     (if idx < length current_mi
      then (case steps_on_axis idx vec_i k
                   (current_mi[idx := wrap64 (current_mi ! idx + 1)]) of
              (ys, c, err) \<Rightarrow>
                ((vec_i, current_mi[idx := wrap64 (current_mi ! idx + 1)]) # ys, c, err))
      else ([], current_mi, Some IndexError))"

fun walk_axes ::
  "nat \<Rightarrow> (int \<times> string) list \<Rightarrow> multi_index \<Rightarrow> (string \<times> multi_index) list \<times> error option"
  where
  "walk_axes idx [] current_mi = ([], None)"
| "walk_axes idx ((mi_i, vec_i) # rest) current_mi =
     (case steps_on_axis idx vec_i (nat (wrap64 (1 + mi_i) - 1)) current_mi of
        (ys, c, Some e) \<Rightarrow> (ys, Some e)
      | (ys, c, None) \<Rightarrow>
          (case walk_axes (Suc idx) rest c of (zs, err) \<Rightarrow> (ys @ zs, err)))"

definition get_derivative_taking_sequence ::
  "string list \<Rightarrow> multi_index \<Rightarrow> multi_index \<Rightarrow> (string \<times> multi_index) list \<times> error option"
  where
  "get_derivative_taking_sequence vars start_mi end_mi =
     (case np_array_int start_mi of
        Inl e \<Rightarrow> ([], Some e)
      | Inr current_mi \<Rightarrow>
          (case mi_dist end_mi start_mi of
             Inl e \<Rightarrow> ([], Some e)
           | Inr dists \<Rightarrow> walk_axes 0 (zip dists vars) current_mi))"

text \<open>
  The body of the loop of \<open>MiDerivativeTaker.diff\<close>, on the pair of \<open>expr\<close> and the
  dictionary.
\<close>

definition diff_step :: "string \<times> multi_index \<Rightarrow> sym_expr \<times> mi_cache \<Rightarrow> sym_expr \<times> mi_cache" where
  "diff_step step s =
     (case step of (next_deriv, next_mi) \<Rightarrow>
        (Diff (fst s) next_deriv, AList.update next_mi (Diff (fst s) next_deriv) (snd s)))"

text \<open>
  \<open>MiDerivativeTaker.diff\<close>.  The result is the returned expression or the exception,
  together with the object as the call leaves it: the stores made before an exception
  stay.
\<close>

definition diff ::
  "MiDerivativeTaker \<Rightarrow> multi_index \<Rightarrow> (error + sym_expr) \<times> MiDerivativeTaker" where
  "diff self mi =
     (case map_of (cache_by_mi self) mi of
        Some expr \<Rightarrow> (Inr expr, self)
      | None \<Rightarrow>
          (case get_closest_cached_mi (cache_by_mi self) mi of
             Inl e \<Rightarrow> (Inl e, self)
           | Inr current_mi \<Rightarrow>
               (case map_of (cache_by_mi self) current_mi of
                  None \<Rightarrow> (Inl KeyError, self)
                | Some expr \<Rightarrow>
                    (case get_derivative_taking_sequence (var_list self) current_mi mi of
                       (steps, err) \<Rightarrow>
                         (case fold diff_step steps (expr, cache_by_mi self) of
                            (expr', cache') \<Rightarrow>
                              ((case err of None \<Rightarrow> Inr expr' | Some e \<Rightarrow> Inl e),
                               self\<lparr>cache_by_mi := cache'\<rparr>))))))"

text \<open>A sequence of calls of \<open>diff\<close> on one object, whatever each call returns.\<close>

definition diff_calls :: "MiDerivativeTaker \<Rightarrow> multi_index list \<Rightarrow> MiDerivativeTaker" where
  "diff_calls self mis = fold (\<lambda>mi s. snd (diff s mi)) mis self"

text \<open>
  The terms of the specification, to state the properties: the componentwise order, the
  Manhattan distance (in the arithmetic of the integers), and the keys of a cache that a
  target dominates.
\<close>

definition mi_le :: "multi_index \<Rightarrow> multi_index \<Rightarrow> bool" where
  "mi_le a b = list_all2 (\<lambda>x y. x \<le> y) a b"

definition manhattan :: "multi_index \<Rightarrow> multi_index \<Rightarrow> int" where
  "manhattan a b = sum_list (map2 (\<lambda>x y. \<bar>x - y\<bar>) a b)"

definition dominated_cached :: "mi_cache \<Rightarrow> multi_index \<Rightarrow> multi_index list" where
  "dominated_cached cache mi = filter (\<lambda>k. mi_le k mi) (map fst cache)"

text \<open>
  A multi-index of \<open>n\<close> axes that the 64-bit arithmetic treats as the integers do: the
  entries are not negative and their total is below \<open>2^63 - 1\<close>, so that neither a
  distance, nor a sum of distances, nor the bound of a range wraps around.
\<close>

definition is_multi_index :: "nat \<Rightarrow> multi_index \<Rightarrow> bool" where
  "is_multi_index n mi =
     (length mi = n \<and> list_all (\<lambda>x. 0 \<le> x) mi \<and> sum_list mi < 2 ^ 63 - 1)"

text \<open>
  A key of a derivative cache with \<open>n\<close> variables: \<open>n\<close> entries, not negative, each
  a 64-bit integer.
\<close>

definition is_cache_key :: "nat \<Rightarrow> multi_index \<Rightarrow> bool" where
  "is_cache_key n k = (length k = n \<and> list_all (\<lambda>x. 0 \<le> x \<and> x < 2 ^ 63) k)"

text \<open>
  The invariant of a derivative cache with \<open>n\<close> variables and base expression
  \<open>base\<close>: the keys are distinct, each is a key in the sense above, and the all-zeros
  multi-index maps to \<open>base\<close>.
\<close>

definition cache_inv :: "nat \<Rightarrow> sym_expr \<Rightarrow> mi_cache \<Rightarrow> bool" where
  "cache_inv n base cache =
     (distinct (map fst cache)
      \<and> list_all (is_cache_key n) (map fst cache)
      \<and> map_of cache (replicate n 0) = Some base)"

subsection \<open>The recurrence-aware derivative cache\<close>

text \<open>
  \<open>LinearRecurrenceBasedMiDerivativeTaker\<close>.  Its \<open>wrangler\<close> belongs to a class that
  is not among the sources; only its method \<open>try_get_recurrence_for_derivative(next_mi,
  self.cache_by_mi)\<close> is used, and that method is a parameter of the model: it returns
  \<open>None\<close> or a dictionary from multi-indices to coefficients (kept in the order
  \<open>iteritems\<close> yields it), or raises.  \<open>memoize_method\<close> of pytools keeps the results of
  the calls that returned in a dictionary of the object, keyed by the argument.
\<close>

type_synonym recurrence = "(multi_index \<times> sym_expr) list"

type_synonym wrangler = "multi_index \<Rightarrow> mi_cache \<Rightarrow> error + recurrence option"

record LinearRecurrenceBasedMiDerivativeTaker = MiDerivativeTaker +
  memoize_dic_diff :: mi_cache

definition LinearRecurrenceBasedMiDerivativeTaker_init ::
  "sym_expr \<Rightarrow> string list \<Rightarrow> LinearRecurrenceBasedMiDerivativeTaker" where
  "LinearRecurrenceBasedMiDerivativeTaker_init expr vars =
     \<lparr>var_list = vars, cache_by_mi = [(replicate (length vars) 0, expr)],
      memoize_dic_diff = []\<rparr>"

text \<open>
  The generator \<open>coeff * self.cache_by_mi[ident] for ident, coeff in
  iteritems(recurrence)\<close>, consumed by \<open>tuple\<close>; a missing key raises \<open>KeyError\<close>.
\<close>

fun recurrence_terms :: "mi_cache \<Rightarrow> recurrence \<Rightarrow> error + sym_expr list" where
  "recurrence_terms cache [] = Inr []"
| "recurrence_terms cache ((ident, coeff) # rest) =
     (case map_of cache ident of
        None \<Rightarrow> Inl KeyError
      | Some e \<Rightarrow>
          (case recurrence_terms cache rest of
             Inl err \<Rightarrow> Inl err
           | Inr ts \<Rightarrow> Inr (Mul coeff e # ts)))"

text \<open>
  The loop of \<open>LinearRecurrenceBasedMiDerivativeTaker.diff\<close> over the items the generator
  yields.  An exception leaves the dictionary as the earlier iterations made it.
\<close>

fun recurrence_walk ::
  "wrangler \<Rightarrow> (string \<times> multi_index) list \<Rightarrow> sym_expr \<Rightarrow> mi_cache \<Rightarrow> (error + sym_expr) \<times> mi_cache"
  where
  "recurrence_walk w [] expr cache = (Inr expr, cache)"
| "recurrence_walk w ((next_deriv, next_mi) # rest) expr cache =
     (case w next_mi cache of
        Inl e \<Rightarrow> (Inl e, cache)
      | Inr (Some recurrence) \<Rightarrow>
          (case recurrence_terms cache recurrence of
             Inl e \<Rightarrow> (Inl e, cache)
           | Inr ts \<Rightarrow> recurrence_walk w rest (Add ts) (AList.update next_mi (Add ts) cache))
      | Inr None \<Rightarrow>
          recurrence_walk w rest (Diff expr next_deriv)
            (AList.update next_mi (Diff expr next_deriv) cache))"

text \<open>The method under the decorator.\<close>

definition LinearRecurrenceBased_diff_body ::
  "wrangler \<Rightarrow> LinearRecurrenceBasedMiDerivativeTaker \<Rightarrow> multi_index \<Rightarrow>
     (error + sym_expr) \<times> LinearRecurrenceBasedMiDerivativeTaker" where
  "LinearRecurrenceBased_diff_body w self mi =
     (case map_of (cache_by_mi self) mi of
        Some expr \<Rightarrow> (Inr expr, self)
      | None \<Rightarrow>
          (case get_closest_cached_mi (cache_by_mi self) mi of
             Inl e \<Rightarrow> (Inl e, self)
           | Inr closest_mi \<Rightarrow>
               (case map_of (cache_by_mi self) closest_mi of
                  None \<Rightarrow> (Inl KeyError, self)
                | Some expr \<Rightarrow>
                    (case get_derivative_taking_sequence (var_list self) closest_mi mi of
                       (steps, err) \<Rightarrow>
                         (case recurrence_walk w steps expr (cache_by_mi self) of
                            (Inl e, cache') \<Rightarrow> (Inl e, self\<lparr>cache_by_mi := cache'\<rparr>)
                          | (Inr expr', cache') \<Rightarrow>
                              ((case err of None \<Rightarrow> Inr expr' | Some e \<Rightarrow> Inl e),
                               self\<lparr>cache_by_mi := cache'\<rparr>))))))"

text \<open>\<open>LinearRecurrenceBasedMiDerivativeTaker.diff\<close>, memoized.\<close>

definition LinearRecurrenceBased_diff ::
  "wrangler \<Rightarrow> LinearRecurrenceBasedMiDerivativeTaker \<Rightarrow> multi_index \<Rightarrow>
     (error + sym_expr) \<times> LinearRecurrenceBasedMiDerivativeTaker" where
  "LinearRecurrenceBased_diff w self mi =
     (case map_of (memoize_dic_diff self) mi of
        Some result \<Rightarrow> (Inr result, self)
      | None \<Rightarrow>
          (case LinearRecurrenceBased_diff_body w self mi of
             (Inl e, self') \<Rightarrow> (Inl e, self')
           | (Inr result, self') \<Rightarrow>
               (Inr result,
                self'\<lparr>memoize_dic_diff := AList.update mi result (memoize_dic_diff self')\<rparr>)))"

text \<open>
  The specification's reading of one step of the recurrence-aware walk, to compare with
  the code: from \<open>expr\<close> and the cache in \<open>s\<close>, the step to \<open>next_mi\<close> along
  \<open>next_deriv\<close> asks the oracle about \<open>next_mi\<close> with the cache as it is; a relation makes
  the new value the sum of the coefficients times the cached values of its multi-indices,
  all of them cached; no relation makes it the derivative of \<open>expr\<close>; the new value is
  stored at \<open>next_mi\<close>.
\<close>

definition weighted_sum :: "mi_cache \<Rightarrow> recurrence \<Rightarrow> sym_expr" where
  "weighted_sum cache r = Add (map (\<lambda>(ident, coeff). Mul coeff (the (map_of cache ident))) r)"

definition recurrence_aware_step ::
  "wrangler \<Rightarrow> string \<times> multi_index \<Rightarrow> sym_expr \<times> mi_cache \<Rightarrow> sym_expr \<times> mi_cache \<Rightarrow> bool"
  where
  "recurrence_aware_step w step s s' =
     (case w (snd step) (snd s) of
        Inl e \<Rightarrow> False
      | Inr (Some r) \<Rightarrow>
          list_all (\<lambda>(ident, coeff). map_of (snd s) ident \<noteq> None) r
          \<and> s' = (weighted_sum (snd s) r, AList.update (snd step) (weighted_sum (snd s) r) (snd s))
      | Inr None \<Rightarrow>
          s' = (Diff (fst s) (fst step),
                AList.update (snd step) (Diff (fst s) (fst step)) (snd s)))"

text \<open>
  An oracle that never raises and only relates a multi-index to multi-indices of the
  cache it is given.
\<close>

definition wrangler_sound :: "wrangler \<Rightarrow> bool" where
  "wrangler_sound w =
     (\<forall>m cache. case w m cache of
        Inl e \<Rightarrow> False
      | Inr None \<Rightarrow> True
      | Inr (Some r) \<Rightarrow> list_all (\<lambda>(ident, coeff). map_of cache ident \<noteq> None) r)"

section \<open>Properties of the kernels\<close>

lemma allocated_mono: "allocated n k \<Longrightarrow> n \<le> m \<Longrightarrow> allocated m k"
  by (cases k) auto

lemma allocated_oid: "allocated n k \<Longrightarrow> oid_of k < n"
  by (cases k) auto

lemma base_kernel_oid_le: "allocated n k \<Longrightarrow> oid_of (get_base_kernel k) \<le> oid_of k"
proof (induction k arbitrary: n)
  case (AxisTargetDerivative i ax k d)
  then have "oid_of (get_base_kernel k) \<le> oid_of k" "oid_of k < i"
    by (auto dest: allocated_oid)
  then show ?case by simp
next
  case (DirectionalTargetDerivative i k e d)
  then have "oid_of (get_base_kernel k) \<le> oid_of k" "oid_of k < i"
    by (auto dest: allocated_oid)
  then show ?case by simp
next
  case (DirectionalSourceDerivative i k e d)
  then have "oid_of (get_base_kernel k) \<le> oid_of k" "oid_of k < i"
    by (auto dest: allocated_oid)
  then show ?case by simp
qed simp_all

lemma own_base_iff_unwrapped:
  assumes "allocated n k"
  shows "py_is (get_base_kernel k) k \<longleftrightarrow> \<not> is_KernelWrapper k"
proof (cases k)
  case (AxisTargetDerivative i ax k' d)
  with assms have "oid_of (get_base_kernel k') \<le> oid_of k'" "oid_of k' < i"
    by (auto dest: allocated_oid base_kernel_oid_le)
  with AxisTargetDerivative show ?thesis by (simp add: py_is_def)
next
  case (DirectionalTargetDerivative i k' e d)
  with assms have "oid_of (get_base_kernel k') \<le> oid_of k'" "oid_of k' < i"
    by (auto dest: allocated_oid base_kernel_oid_le)
  with DirectionalTargetDerivative show ?thesis by (simp add: py_is_def)
next
  case (DirectionalSourceDerivative i k' e d)
  with assms have "oid_of (get_base_kernel k') \<le> oid_of k'" "oid_of k' < i"
    by (auto dest: allocated_oid base_kernel_oid_le)
  with DirectionalSourceDerivative show ?thesis by (simp add: py_is_def)
qed (simp_all add: py_is_def)


lemma new_DifferenceKernel_Inr:
  "new_DifferenceKernel kp km n = Inr r \<longleftrightarrow>
     py_is (get_base_kernel kp) kp \<and> py_is (get_base_kernel km) km
     \<and> dimensions kp = dimensions km
     \<and> r = (DifferenceKernel n kp km (dimensions kp), Suc n)"
  by (auto simp: new_DifferenceKernel_def)

lemma new_DifferenceKernel_Inl:
  "new_DifferenceKernel kp km n = Inl e \<longleftrightarrow>
     \<not> (py_is (get_base_kernel kp) kp \<and> py_is (get_base_kernel km) km
        \<and> dimensions kp = dimensions km) \<and> e = ValueError"
  by (auto simp: new_DifferenceKernel_def)

subsection \<open>Scaling, construction and equality\<close>

text \<open>
  C8.  \<open>get_scaling\<close> returns \<open>-1/(2 pi)\<close> for the Laplace kernel in dimension 2,
  \<open>1/(4 pi)\<close> for Laplace in dimension 3, \<open>i/4\<close> for the Helmholtz kernel in
  dimension 2 and \<open>1/(4 pi)\<close> for Helmholtz in dimension 3; for every other value of
  \<open>dimensions\<close>, \<open>None\<close> included, it raises the unsupported-dimensionality error.
\<close>

theorem get_scaling_by_dimension:
  "get_scaling (LaplaceKernel i d) =
     (if d = Some 2 then Inr (- 1 / (2 * of_real pi))
      else if d = Some 3 then Inr (1 / (4 * of_real pi))
      else Inl RuntimeError)
   \<and> get_scaling (HelmholtzKernel j d nm ev) =
     (if d = Some 2 then Inr (\<i> / 4)
      else if d = Some 3 then Inr (1 / (4 * of_real pi))
      else Inl RuntimeError)"
  by simp

text \<open>
  C9.  For operands built by the constructors, constructing a \<open>DifferenceKernel\<close>
  succeeds exactly when each operand is its own base kernel, which is exactly when it is
  not a derivative wrapper, and the two have equal \<open>dimensions\<close>.  Otherwise it raises
  \<open>ValueError\<close> and yields no kernel.  On success the new kernel's \<open>dimensions\<close> is
  the operands' common value.
\<close>

theorem new_DifferenceKernel_succeeds_iff:
  assumes "allocated n kernel_plus" and "allocated n kernel_minus"
  shows "((\<exists>k n'. new_DifferenceKernel kernel_plus kernel_minus n = Inr (k, n')) \<longleftrightarrow>
            py_is (get_base_kernel kernel_plus) kernel_plus
          \<and> py_is (get_base_kernel kernel_minus) kernel_minus
          \<and> dimensions kernel_plus = dimensions kernel_minus)
       \<and> (py_is (get_base_kernel kernel_plus) kernel_plus \<longleftrightarrow> \<not> is_KernelWrapper kernel_plus)
       \<and> (py_is (get_base_kernel kernel_minus) kernel_minus \<longleftrightarrow> \<not> is_KernelWrapper kernel_minus)
       \<and> ((\<nexists>k n'. new_DifferenceKernel kernel_plus kernel_minus n = Inr (k, n')) \<longleftrightarrow>
            new_DifferenceKernel kernel_plus kernel_minus n = Inl ValueError)
       \<and> (\<forall>k n'. new_DifferenceKernel kernel_plus kernel_minus n = Inr (k, n') \<longrightarrow>
            dimensions k = dimensions kernel_plus \<and> dimensions k = dimensions kernel_minus
            \<and> get_base_kernel k = k \<and> allocated n' k)"
proof (intro conjI)
  show "(\<exists>k n'. new_DifferenceKernel kernel_plus kernel_minus n = Inr (k, n')) \<longleftrightarrow>
            py_is (get_base_kernel kernel_plus) kernel_plus
          \<and> py_is (get_base_kernel kernel_minus) kernel_minus
          \<and> dimensions kernel_plus = dimensions kernel_minus"
    by (simp add: new_DifferenceKernel_Inr)
  show "py_is (get_base_kernel kernel_plus) kernel_plus \<longleftrightarrow> \<not> is_KernelWrapper kernel_plus"
    using assms(1) by (rule own_base_iff_unwrapped)
  show "py_is (get_base_kernel kernel_minus) kernel_minus \<longleftrightarrow> \<not> is_KernelWrapper kernel_minus"
    using assms(2) by (rule own_base_iff_unwrapped)
  show "(\<nexists>k n'. new_DifferenceKernel kernel_plus kernel_minus n = Inr (k, n')) \<longleftrightarrow>
            new_DifferenceKernel kernel_plus kernel_minus n = Inl ValueError"
    by (simp add: new_DifferenceKernel_Inr new_DifferenceKernel_Inl)
  show "\<forall>k n'. new_DifferenceKernel kernel_plus kernel_minus n = Inr (k, n') \<longrightarrow>
            dimensions k = dimensions kernel_plus \<and> dimensions k = dimensions kernel_minus
            \<and> get_base_kernel k = k \<and> allocated n' k"
    using assms by (auto simp: new_DifferenceKernel_Inr)
qed

text \<open>
  A Laplace and a Helmholtz kernel of dimension 2 can be subtracted; the axis derivative
  of the Laplace kernel cannot be an operand.
\<close>

theorem new_DifferenceKernel_succeeds_iff_witness:
  "allocated 3 (LaplaceKernel 0 (Some 2))
   \<and> allocated 3 (HelmholtzKernel 1 (Some 2) ''k'' False)
   \<and> allocated 3 (AxisTargetDerivative 2 0 (LaplaceKernel 0 (Some 2)) (Some 2))
   \<and> new_DifferenceKernel (LaplaceKernel 0 (Some 2)) (HelmholtzKernel 1 (Some 2) ''k'' False) 3
       = Inr (DifferenceKernel 3 (LaplaceKernel 0 (Some 2))
                (HelmholtzKernel 1 (Some 2) ''k'' False) (Some 2), 4)
   \<and> new_DifferenceKernel (AxisTargetDerivative 2 0 (LaplaceKernel 0 (Some 2)) (Some 2))
        (HelmholtzKernel 1 (Some 2) ''k'' False) 3 = Inl ValueError"
proof -
  have a: "allocated 3 (LaplaceKernel 0 (Some 2))" by simp
  have b: "allocated 3 (HelmholtzKernel 1 (Some 2) ''k'' False)" by simp
  have c: "allocated 3 (AxisTargetDerivative 2 0 (LaplaceKernel 0 (Some 2)) (Some 2))" by simp
  from new_DifferenceKernel_succeeds_iff [OF a b]
  have "\<exists>k n'. new_DifferenceKernel (LaplaceKernel 0 (Some 2))
           (HelmholtzKernel 1 (Some 2) ''k'' False) 3 = Inr (k, n')"
    by simp
  then have d: "new_DifferenceKernel (LaplaceKernel 0 (Some 2))
      (HelmholtzKernel 1 (Some 2) ''k'' False) 3
       = Inr (DifferenceKernel 3 (LaplaceKernel 0 (Some 2))
                (HelmholtzKernel 1 (Some 2) ''k'' False) (Some 2), 4)"
    by (auto simp: new_DifferenceKernel_Inr)
  from new_DifferenceKernel_succeeds_iff [OF c b]
  have e: "new_DifferenceKernel (AxisTargetDerivative 2 0 (LaplaceKernel 0 (Some 2)) (Some 2))
        (HelmholtzKernel 1 (Some 2) ''k'' False) 3 = Inl ValueError"
    by (auto simp: py_is_def)
  from a b c d e show ?thesis by blast
qed











section \<open>Properties of the 64-bit arithmetic\<close>

lemma wrap64_id: "int64 x \<Longrightarrow> wrap64 x = x"
  by (simp add: wrap64_def int64_def)

lemma int64_wrap64: "int64 (wrap64 x)"
proof -
  have "0 \<le> (x + 2 ^ 63) mod 2 ^ 64" "(x + 2 ^ 63) mod (2 ^ 64 :: int) < 2 ^ 64"
    by simp_all
  then show ?thesis by (simp add: wrap64_def int64_def)
qed

lemma np_array_Inr: "list_all int64 t \<Longrightarrow> np_array t = Inr t"
  by (simp add: np_array_def)

lemma np_array_int_Inr: "list_all int64 t \<Longrightarrow> np_array_int t = Inr t"
  by (simp add: np_array_int_def)

section \<open>Properties of the expansions\<close>

subsection \<open>The Laplace recurrence\<close>

lemma py_index_None: "py_index xs x = None \<longleftrightarrow> x \<notin> set xs"
  by (induction xs) auto

lemma py_index_Some: "py_index xs x = Some i \<Longrightarrow> i < length xs \<and> xs ! i = x"
  by (induction xs arbitrary: i) (auto split: if_splits)

lemma needed_derivs_eq:
  "\<forall>j \<in> set js. j < length r \<and> (j \<noteq> k \<longrightarrow> int64 (r ! j + 2)) \<Longrightarrow>
   needed_derivs r k js = Inr (map (\<lambda>j. r[j := r ! j + 2]) (filter (\<lambda>j. j \<noteq> k) js))"
  by (induction js) (auto simp: wrap64_id)

lemma assign_needed_eq:
  "length ids \<le> length expr \<Longrightarrow>
   assign_needed ids nds expr =
     (if list_all (\<lambda>nd. nd \<in> set ids) nds
      then Inr (Some (map (\<lambda>i. if i \<in> set (List.map_filter (py_index ids) nds) then - 1 else expr ! i)
                        [0..<length expr]))
      else Inr None)"
proof (induction nds arbitrary: expr)
  case Nil
  then show ?case by (simp add: map_filter_simps map_nth)
next
  case (Cons nd nds)
  show ?case
  proof (cases "py_index ids nd")
    case None
    then have "nd \<notin> set ids" by (simp add: py_index_None)
    with None show ?thesis by simp
  next
    case (Some i)
    then have i: "i < length ids" "nd \<in> set ids"
      using py_index_Some [OF Some] by auto
    with Cons.prems have il: "i < length expr" by simp
    have len: "length ids \<le> length (expr[i := - 1])" using Cons.prems by simp
    show ?thesis
      using Some i il Cons.IH [OF len]
      by (auto simp: map_filter_simps nth_list_update)
  qed
qed

lemma try_axes_eq:
  assumes "length d = kd" "length ids \<le> n"
    and "list_all (\<lambda>x. - (2 ^ 63) \<le> x \<and> x < 2 ^ 63 - 2) d"
  shows "\<forall>k \<in> set ks. k < length d \<Longrightarrow>
   try_axes kd d ids n (filter (\<lambda>k. 2 \<le> d ! k) ks) =
     (case find (laplace_axis_reducible kd d ids) ks of
        None \<Rightarrow> Inr None
      | Some k \<Rightarrow> Inr (Some (laplace_relation n ids (laplace_needed kd d k))))"
proof (induction ks)
  case Nil
  then show ?case by simp
next
  case (Cons k ks)
  then have k: "k < length d" by simp
  have b: "- (2 ^ 63) \<le> d ! j \<and> d ! j < 2 ^ 63 - 2" if "j < length d" for j
    using assms(3) that by (simp add: list_all_length)
  have w: "wrap64 (d ! k - 2) = d ! k - 2" if "2 \<le> d ! k"
    using that b [OF k] by (intro wrap64_id) (simp add: int64_def)
  have "needed_derivs (d[k := d ! k - 2]) k [0..<kd]
      = Inr (map (\<lambda>j. (d[k := d ! k - 2])[j := (d[k := d ! k - 2]) ! j + 2])
               (filter (\<lambda>j. j \<noteq> k) [0..<kd]))"
  proof (rule needed_derivs_eq, intro ballI conjI impI)
    fix j assume j: "j \<in> set [0..<kd]"
    then show "j < length (d[k := d ! k - 2])" using assms(1) by simp
    assume "j \<noteq> k"
    then have "(d[k := d ! k - 2]) ! j = d ! j" by simp
    moreover have "int64 (d ! j + 2)" using b [of j] j assms(1) by (simp add: int64_def)
    ultimately show "int64 ((d[k := d ! k - 2]) ! j + 2)" by simp
  qed
  then have nd: "2 \<le> d ! k \<Longrightarrow>
      needed_derivs (d[k := wrap64 (d ! k - 2)]) k [0..<kd] = Inr (laplace_needed kd d k)"
    by (simp add: w laplace_needed_def)
  have an: "assign_needed ids (laplace_needed kd d k) (replicate n 0) =
     (if list_all (\<lambda>nd. nd \<in> set ids) (laplace_needed kd d k)
      then Inr (Some (laplace_relation n ids (laplace_needed kd d k))) else Inr None)"
    using assms(2) by (simp add: assign_needed_eq laplace_relation_def)
  show ?case
    using Cons k by (simp add: nd an laplace_axis_reducible_def)
qed

lemma try_get_recurrence_for_derivative_eq:
  assumes "length d = kernel_dim" and "length in_terms_of \<le> ncoeffs"
    and "list_all (\<lambda>x. - (2 ^ 63) \<le> x \<and> x < 2 ^ 63 - 2) d"
  shows "try_get_recurrence_for_derivative kernel_dim d in_terms_of ncoeffs =
     (case find (laplace_axis_reducible kernel_dim d in_terms_of) [0..<kernel_dim] of
        None \<Rightarrow> Inr None
      | Some k \<Rightarrow>
          Inr (Some (laplace_relation ncoeffs in_terms_of (laplace_needed kernel_dim d k))))"
proof -
  have "list_all int64 d"
    using assms(3) by (auto simp: list_all_iff int64_def)
  then have "np_array d = Inr d" by (rule np_array_Inr)
  then show ?thesis
    unfolding try_get_recurrence_for_derivative_def
    using try_axes_eq [OF assms, of "[0..<kernel_dim]"] assms(1) by simp
qed





subsection \<open>The coefficient matrix\<close>

lemma filter_zip_fresh:
  assumes "x \<notin> set xs"
  shows "filter (\<lambda>p. fst p \<in> insert x S) (zip xs ys) = filter (\<lambda>p. fst p \<in> S) (zip xs ys)"
  using assms by (intro filter_cong) (auto dest: set_zip_leftD)

lemma filter_fresh:
  assumes "x \<notin> set xs"
  shows "filter (\<lambda>i. i \<in> insert x S) xs = filter (\<lambda>i. i \<in> S) xs"
  using assms by (intro filter_cong) auto

lemma precompute_inv_store:
  assumes inv: "precompute_inv n st" and x: "x \<notin> set (identifiers_so_far st)"
    and lt: "length (stored_identifiers st) < n"
  shows "precompute_inv n
           \<lparr>stored_identifiers = stored_identifiers st @ [x],
            identifiers_so_far = identifiers_so_far st @ [x],
            coeff_matrix = coeff_matrix st @ [(replicate n 0)[length (stored_identifiers st) := 1]]\<rparr>"
proof -
  let ?S = "stored_identifiers st" and ?I = "identifiers_so_far st" and ?M = "coeff_matrix st"
  from inv have len: "length ?M = length ?I"
    and rows: "list_all (\<lambda>row. length row = n) ?M"
    and sub: "?S = filter (\<lambda>i. i \<in> set ?S) ?I"
    and idr: "map snd (filter (\<lambda>p. fst p \<in> set ?S) (zip ?I ?M))
       = map (\<lambda>j. (replicate n 0)[j := 1]) [0..<length ?S]"
    by (simp_all add: precompute_inv_def)
  have f1: "filter (\<lambda>i. i \<in> insert x (set ?S)) ?I = ?S"
    using filter_fresh [OF x] sub by simp
  have f2: "filter (\<lambda>p. fst p \<in> insert x (set ?S)) (zip ?I ?M)
      = filter (\<lambda>p. fst p \<in> set ?S) (zip ?I ?M)"
    using filter_zip_fresh [OF x] by simp
  show ?thesis
    unfolding precompute_inv_def
    using len rows lt f1 f2 idr by (simp add: zip_append)
qed

lemma precompute_inv_reduce:
  assumes inv: "precompute_inv n st" and x: "x \<notin> set (identifiers_so_far st)"
    and row: "length row = n"
  shows "precompute_inv n
           \<lparr>stored_identifiers = stored_identifiers st,
            identifiers_so_far = identifiers_so_far st @ [x],
            coeff_matrix = coeff_matrix st @ [row]\<rparr>"
proof -
  let ?S = "stored_identifiers st" and ?I = "identifiers_so_far st" and ?M = "coeff_matrix st"
  from inv have len: "length ?M = length ?I"
    and rows: "list_all (\<lambda>row. length row = n) ?M"
    and le: "length ?S \<le> n"
    and sub: "?S = filter (\<lambda>i. i \<in> set ?S) ?I"
    and idr: "map snd (filter (\<lambda>p. fst p \<in> set ?S) (zip ?I ?M))
       = map (\<lambda>j. (replicate n 0)[j := 1]) [0..<length ?S]"
    by (simp_all add: precompute_inv_def)
  have "set ?S \<subseteq> set ?I" by (subst sub) auto
  with x have xs: "x \<notin> set ?S" by auto
  show ?thesis
    unfolding precompute_inv_def
    using len rows le row xs sub idr by (simp add: zip_append)
qed

lemma precompute_loop_inv:
  "precompute_loop oracle n rest st = Inr st' \<Longrightarrow> precompute_inv n st \<Longrightarrow>
   distinct (identifiers_so_far st @ rest) \<Longrightarrow>
   precompute_inv n st' \<and> identifiers_so_far st' = identifiers_so_far st @ rest"
proof (induction rest arbitrary: st)
  case Nil
  then show ?case by simp
next
  case (Cons x rest)
  from Cons.prems(3) have x: "x \<notin> set (identifiers_so_far st)" by auto
  show ?case
  proof (cases "oracle x (identifiers_so_far st) n")
    case (Inl e)
    with Cons.prems(1) show ?thesis by simp
  next
    case (Inr r)
    show ?thesis
    proof (cases r)
      case None
      let ?st = "\<lparr>stored_identifiers = stored_identifiers st @ [x],
            identifiers_so_far = identifiers_so_far st @ [x],
            coeff_matrix = coeff_matrix st @ [(replicate n 0)[length (stored_identifiers st) := 1]]\<rparr>"
      from Cons.prems(1) Inr None have lt: "length (stored_identifiers st) < n"
        and run: "precompute_loop oracle n rest ?st = Inr st'"
        by (auto split: if_splits)
      have "precompute_inv n ?st" using Cons.prems(2) x lt by (rule precompute_inv_store)
      moreover have "distinct (identifiers_so_far ?st @ rest)" using Cons.prems(3) by simp
      ultimately show ?thesis using Cons.IH [OF run] by simp
    next
      case (Some expr)
      let ?row = "np_dot_transpose (coeff_matrix st) (take (length (coeff_matrix st)) expr) n"
      let ?st = "\<lparr>stored_identifiers = stored_identifiers st,
            identifiers_so_far = identifiers_so_far st @ [x],
            coeff_matrix = coeff_matrix st @ [?row]\<rparr>"
      from Cons.prems(1) Inr Some have run: "precompute_loop oracle n rest ?st = Inr st'"
        by (auto split: if_splits)
      have "length ?row = n" by (simp add: np_dot_transpose_def)
      with Cons.prems(2) x have "precompute_inv n ?st" by (rule precompute_inv_reduce)
      moreover have "distinct (identifiers_so_far ?st @ rest)" using Cons.prems(3) by simp
      ultimately show ?thesis using Cons.IH [OF run] by simp
    qed
  qed
qed

lemma take_unit:
  "j < m \<Longrightarrow> m \<le> n \<Longrightarrow> take m ((replicate n (0::'a::semiring_1))[j := 1]) = unit_row m j"
  by (auto simp: unit_row_def list_eq_iff_nth_eq nth_list_update)

lemma map_snd_filter_zip_map:
  "map snd (filter (\<lambda>p. fst p \<in> S) (zip xs (map f ys)))
     = map f (map snd (filter (\<lambda>p. fst p \<in> S) (zip xs ys)))"
proof (induction xs arbitrary: ys)
  case Nil
  then show ?case by simp
next
  case (Cons x xs)
  then show ?case by (cases ys) auto
qed

lemma precompute_coeff_matrix_props:
  assumes run: "precompute_coeff_matrix oracle full = Inr (stored, M)" and d: "distinct full"
  shows "length M = length full \<and> list_all (\<lambda>row. length row = length stored) M
       \<and> stored = filter (\<lambda>i. i \<in> set stored) full
       \<and> map snd (filter (\<lambda>p. fst p \<in> set stored) (zip full M))
           = map (unit_row (length stored)) [0..<length stored]"
proof -
  let ?n = "length full"
  let ?st0 = "\<lparr>stored_identifiers = [], identifiers_so_far = [],
      coeff_matrix = [] :: 'a list list\<rparr>"
  from run obtain st where loop: "precompute_loop oracle ?n full ?st0 = Inr st"
    and s: "stored = stored_identifiers st"
    and m: "M = map (take (length stored)) (coeff_matrix st)"
    by (auto simp: precompute_coeff_matrix_def split: sum.splits if_splits)
  have "precompute_inv ?n ?st0" by (simp add: precompute_inv_def)
  with precompute_loop_inv [OF loop] d
  have inv: "precompute_inv ?n st" and sf: "identifiers_so_far st = full" by simp_all
  from inv sf s have len: "length (coeff_matrix st) = ?n"
    and rows: "list_all (\<lambda>row. length row = ?n) (coeff_matrix st)"
    and le: "length stored \<le> ?n"
    and sub: "stored = filter (\<lambda>i. i \<in> set stored) full"
    and idr: "map snd (filter (\<lambda>p. fst p \<in> set stored) (zip full (coeff_matrix st)))
       = map (\<lambda>j. (replicate ?n 0)[j := 1]) [0..<length stored]"
    by (simp_all add: precompute_inv_def)
  have 1: "length M = ?n" using m len by simp
  have 2: "list_all (\<lambda>row. length row = length stored) M"
    using m rows le by (auto simp: list_all_iff)
  have 3: "map snd (filter (\<lambda>p. fst p \<in> set stored) (zip full M))
           = map (unit_row (length stored)) [0..<length stored]"
    unfolding m map_snd_filter_zip_map idr using le by (simp add: take_unit)
  from 1 2 sub 3 show ?thesis by blast
qed

lemma distinct_concat_map:
  "distinct xs \<Longrightarrow> (\<And>i. i \<in> set xs \<Longrightarrow> distinct (f i)) \<Longrightarrow>
   (\<And>i j. i \<in> set xs \<Longrightarrow> j \<in> set xs \<Longrightarrow> i \<noteq> j \<Longrightarrow> set (f i) \<inter> set (f j) = {}) \<Longrightarrow>
   distinct (concat (map f xs))"
proof (induction xs)
  case Nil
  then show ?case by simp
next
  case (Cons x xs)
  have "distinct (concat (map f xs))" using Cons by simp
  moreover have "distinct (f x)" using Cons.prems(2) by simp
  moreover have "set (f x) \<inter> set (f j) = {}" if "j \<in> set xs" for j
    using Cons.prems(1) Cons.prems(3) [of x j] that by auto
  ultimately show ?case by auto
qed

lemma distinct_gnitstam: "distinct (gnitstam n l)"
proof (induction l arbitrary: n)
  case 0
  then show ?case by simp
next
  case (Suc l)
  have "distinct (concat (map (\<lambda>i. map (\<lambda>base. base @ [i]) (gnitstam (n - i) l)) [0..n]))"
  proof (rule distinct_concat_map)
    show "distinct [0..n]" by simp
    show "distinct (map (\<lambda>base. base @ [i]) (gnitstam (n - i) l))" for i
      using Suc by (simp add: distinct_map inj_on_def)
    show "set (map (\<lambda>base. base @ [i]) (gnitstam (n - i) l))
        \<inter> set (map (\<lambda>base. base @ [j]) (gnitstam (n - j) l)) = {}" if "i \<noteq> j" for i j
      using that by auto
  qed
  then show ?case by simp
qed

lemma distinct_full_identifiers: "distinct (get_full_coefficient_identifiers order kernel_dim)"
  by (simp add: get_full_coefficient_identifiers_def distinct_gnitstam)

lemma full_identifiers_2_2:
  "get_full_coefficient_identifiers 2 2 = [[0, 0], [1, 0], [0, 1], [2, 0], [1, 1], [0, 2]]"
  by code_simp

lemma laplace_expansion_2_2:
  "laplace_expansion 2 2 =
     Inr ([[0, 0], [1, 0], [0, 1], [2, 0], [1, 1]],
          [[1, 0, 0, 0, 0], [0, 1, 0, 0, 0], [0, 0, 1, 0, 0], [0, 0, 0, 1, 0],
           [0, 0, 0, 0, 1], [0, 0, 0, - 1, 0]])"
  by code_simp

text \<open>
  The construction of a Laplace-conforming expansion returns for every dimension and
  every order from 0 up to, and not including, \<open>2^63 - 2\<close>: the entries of the identifiers
  are then 64-bit integers that the oracle can raise by 2, the first identifier is the zero
  multi-index, for which the oracle finds no relation, and no store goes out of range.
\<close>

lemma gnitstam_length: "t \<in> set (gnitstam n l) \<Longrightarrow> length t = l"
  by (induction l arbitrary: n t) auto

lemma gnitstam_nonneg: "t \<in> set (gnitstam n l) \<Longrightarrow> x \<in> set t \<Longrightarrow> 0 \<le> x"
  by (induction l arbitrary: n t) auto

lemma gnitstam_le: "t \<in> set (gnitstam n l) \<Longrightarrow> x \<in> set t \<Longrightarrow> x \<le> n"
proof (induction l arbitrary: n t)
  case 0
  then show ?case by simp
next
  case (Suc l)
  from Suc.prems(1) obtain i base where i: "0 \<le> i" "i \<le> n"
    and base: "base \<in> set (gnitstam (n - i) l)" and t: "t = base @ [i]"
    by auto
  from Suc.prems(2) t have "x \<in> set base \<or> x = i" by auto
  then show ?case
  proof
    assume "x \<in> set base"
    with base have "x \<le> n - i" by (rule Suc.IH)
    with i show ?thesis by simp
  next
    assume "x = i"
    with i show ?thesis by simp
  qed
qed

lemma gnitstam_zeros: "0 \<le> n \<Longrightarrow> replicate l 0 \<in> set (gnitstam n l)"
proof (induction l arbitrary: n)
  case 0
  then show ?case by simp
next
  case (Suc l)
  have a: "replicate l 0 \<in> set (gnitstam (n - 0) l)" using Suc by simp
  have b: "(0::int) \<in> {0..n}" using Suc.prems by simp
  have c: "replicate (Suc l) (0::int) = replicate l 0 @ [0]"
    by (simp add: replicate_append_same)
  have "replicate l 0 @ [0] \<in> (\<lambda>base. base @ [0]) ` set (gnitstam (n - 0) l)"
    using a by (rule imageI)
  with b have "\<exists>x\<in>{0..n}. replicate l 0 @ [0] \<in> (\<lambda>base. base @ [x]) ` set (gnitstam (n - x) l)"
    by (rule bexI [rotated])
  then show ?case unfolding c by simp
qed

lemma hd_sort_key_least:
  assumes "y \<in> set xs"
  shows "f (hd (sort_key f xs)) \<le> f y"
proof -
  have s: "sorted (map f (sort_key f xs))" by simp
  from assms have "y \<in> set (sort_key f xs)" by simp
  then obtain z zs where zs: "sort_key f xs = z # zs" and "y = z \<or> y \<in> set zs"
    by (cases "sort_key f xs") auto
  with s show ?thesis by auto
qed

lemma first_identifier_small:
  assumes "0 \<le> order" and "k < kernel_dim"
  shows "hd (get_full_coefficient_identifiers order kernel_dim) ! k < 2"
proof -
  let ?xs = "gnitstam order kernel_dim"
  let ?h = "hd (sort_key sum_list ?xs)"
  have z: "replicate kernel_dim 0 \<in> set ?xs" using assms(1) by (rule gnitstam_zeros)
  then have "sort_key sum_list ?xs \<noteq> []" by (metis empty_iff empty_set set_sort)
  then have "?h \<in> set (sort_key sum_list ?xs)" by (rule hd_in_set)
  then have h: "?h \<in> set ?xs" by simp
  have le: "sum_list ?h \<le> 0"
    using hd_sort_key_least [OF z, of sum_list] by (simp add: sum_list_replicate)
  have len: "length ?h = kernel_dim" using h by (rule gnitstam_length)
  have nn: "\<forall>x \<in> set ?h. 0 \<le> x" using h gnitstam_nonneg by blast
  have "?h ! k \<le> sum_list ?h"
    using nn len assms(2) by (simp add: member_le_sum_list)
  with le show ?thesis by (simp add: get_full_coefficient_identifiers_def)
qed

lemma laplace_relation_length: "length (laplace_relation n ids nds) = n"
  by (simp add: laplace_relation_def)

lemma laplace_loop_succeeds:
  "\<forall>d \<in> set rest. length d = kd \<Longrightarrow>
   length (identifiers_so_far st) + length rest \<le> n \<Longrightarrow>
   length (stored_identifiers st) \<le> length (identifiers_so_far st) \<Longrightarrow>
   length (coeff_matrix st) = length (identifiers_so_far st) \<Longrightarrow>
   (identifiers_so_far st = [] \<longrightarrow> rest \<noteq> [] \<longrightarrow> (\<forall>k<kd. hd rest ! k < 2)) \<Longrightarrow>
   \<forall>d \<in> set rest. list_all (\<lambda>x. - (2 ^ 63) \<le> x \<and> x < 2 ^ 63 - 2) d \<Longrightarrow>
   \<exists>st'. precompute_loop (try_get_recurrence_for_derivative kd) n rest st = Inr st'"
proof (induction rest arbitrary: st)
  case Nil
  then show ?case by simp
next
  case (Cons d rest)
  let ?I = "identifiers_so_far st"
  have ld: "length d = kd" using Cons.prems(1) by simp
  have ln: "length ?I \<le> n" using Cons.prems(2) by simp
  have bd: "list_all (\<lambda>x. - (2 ^ 63) \<le> x \<and> x < 2 ^ 63 - 2) d" using Cons.prems(6) by simp
  note eq = try_get_recurrence_for_derivative_eq [OF ld ln bd]
  show ?case
  proof (cases "find (laplace_axis_reducible kd d ?I) [0..<kd]")
    case None
    let ?st = "\<lparr>stored_identifiers = stored_identifiers st @ [d],
                  identifiers_so_far = ?I @ [d],
                  coeff_matrix = coeff_matrix st
                     @ [(replicate n 0)[length (stored_identifiers st) := 1]]\<rparr>"
    have lt: "length (stored_identifiers st) < n" using Cons.prems(2,3) by simp
    have "\<exists>st'. precompute_loop (try_get_recurrence_for_derivative kd) n rest ?st = Inr st'"
      by (rule Cons.IH) (use Cons.prems in simp_all)
    then show ?thesis using eq None lt by simp
  next
    case (Some k)
    let ?expr = "laplace_relation n ?I (laplace_needed kd d k)"
    let ?st = "\<lparr>stored_identifiers = stored_identifiers st,
                  identifiers_so_far = ?I @ [d],
                  coeff_matrix = coeff_matrix st
                     @ [np_dot_transpose (coeff_matrix st)
                          (take (length (coeff_matrix st)) ?expr) n]\<rparr>"
    from Some have red: "laplace_axis_reducible kd d ?I k" and k: "k < kd"
      by (auto simp: find_Some_iff)
    have ne: "?I \<noteq> []"
    proof
      assume "?I = []"
      with Cons.prems(5) k have "d ! k < 2" by simp
      with red show False by (simp add: laplace_axis_reducible_def)
    qed
    then have m: "coeff_matrix st \<noteq> []" using Cons.prems(4) by auto
    have le: "\<not> length ?expr < length (coeff_matrix st)"
      using Cons.prems(4) ln by (simp add: laplace_relation_length)
    have "\<exists>st'. precompute_loop (try_get_recurrence_for_derivative kd) n rest ?st = Inr st'"
      by (rule Cons.IH) (use Cons.prems in simp_all)
    then show ?thesis using eq Some m le by simp
  qed
qed

lemma laplace_expansion_constructs:
  assumes "0 \<le> order" and "order < 2 ^ 63 - 2"
  shows "\<exists>stored M. laplace_expansion kernel_dim order = Inr (stored, M)"
proof -
  let ?full = "get_full_coefficient_identifiers order kernel_dim"
  let ?st0 = "\<lparr>stored_identifiers = [], identifiers_so_far = [],
      coeff_matrix = [] :: int list list\<rparr>"
  have z: "replicate kernel_dim 0 \<in> set ?full"
    using gnitstam_zeros [OF assms(1)] by (simp add: get_full_coefficient_identifiers_def)
  then have ne: "?full \<noteq> []" by auto
  have len: "\<forall>d \<in> set ?full. length d = kernel_dim"
    by (auto simp: get_full_coefficient_identifiers_def dest: gnitstam_length)
  have first: "\<forall>k<kernel_dim. hd ?full ! k < 2"
    using first_identifier_small [OF assms(1)] by blast
  have bd: "\<forall>d \<in> set ?full. list_all (\<lambda>x. - (2 ^ 63) \<le> x \<and> x < 2 ^ 63 - 2) d"
  proof (intro ballI, unfold list_all_iff, intro ballI)
    fix d x assume "d \<in> set ?full" and x: "x \<in> set d"
    then have d: "d \<in> set (gnitstam order kernel_dim)"
      by (simp add: get_full_coefficient_identifiers_def)
    from d x have "0 \<le> x" by (rule gnitstam_nonneg)
    moreover from d x have "x \<le> order" by (rule gnitstam_le)
    ultimately show "- (2 ^ 63) \<le> x \<and> x < 2 ^ 63 - 2" using assms(2) by simp
  qed
  have "\<exists>st'. precompute_loop (try_get_recurrence_for_derivative kernel_dim) (length ?full)
           ?full ?st0 = Inr st'"
    by (rule laplace_loop_succeeds) (use len first bd in simp_all)
  then obtain st' where loop: "precompute_loop (try_get_recurrence_for_derivative kernel_dim)
      (length ?full) ?full ?st0 = Inr st'" by blast
  have "precompute_inv (length ?full) ?st0" by (simp add: precompute_inv_def)
  with precompute_loop_inv [OF loop] distinct_full_identifiers
  have "precompute_inv (length ?full) st'" and "identifiers_so_far st' = ?full" by simp_all
  then have "length (coeff_matrix st') = length ?full" by (simp add: precompute_inv_def)
  with ne have "coeff_matrix st' \<noteq> []" by auto
  with loop show ?thesis by (simp add: laplace_expansion_def precompute_coeff_matrix_def)
qed

text \<open>
  C5.  When the construction of a PDE-reduced expansion has produced
  \<open>stored_identifiers\<close> and \<open>coeff_matrix\<close>, whatever the recurrence oracle of the
  subclass, the matrix has one row per full identifier and one column per stored
  identifier, the stored identifiers are the full identifiers they consist of in the same
  order, and the rows at the positions of the stored identifiers, in order, are the rows of
  the identity matrix.
\<close>

theorem coeff_matrix_shape_and_identity_rows:
  assumes "precompute_coeff_matrix oracle (get_full_coefficient_identifiers order kernel_dim)
             = Inr (stored, M)"
  shows "length M = length (get_full_coefficient_identifiers order kernel_dim)
       \<and> list_all (\<lambda>row. length row = length stored) M
       \<and> stored = filter (\<lambda>i. i \<in> set stored) (get_full_coefficient_identifiers order kernel_dim)
       \<and> map snd (filter (\<lambda>p. fst p \<in> set stored)
                     (zip (get_full_coefficient_identifiers order kernel_dim) M))
           = map (unit_row (length stored)) [0..<length stored]"
  using assms distinct_full_identifiers by (rule precompute_coeff_matrix_props)

theorem coeff_matrix_shape_and_identity_rows_witness:
  "laplace_expansion 2 2 =
     Inr ([[0, 0], [1, 0], [0, 1], [2, 0], [1, 1]],
          [[1, 0, 0, 0, 0], [0, 1, 0, 0, 0], [0, 0, 1, 0, 0], [0, 0, 0, 1, 0],
           [0, 0, 0, 0, 1], [0, 0, 0, - 1, 0]])
   \<and> map snd (filter (\<lambda>p. fst p \<in> set [[0, 0], [1, 0], [0, 1], [2, 0], [1, 1]])
                 (zip (get_full_coefficient_identifiers 2 2)
                    [[1, 0, 0, 0, 0], [0, 1, 0, 0, 0], [0, 0, 1, 0, 0], [0, 0, 0, 1, 0],
                     [0, 0, 0, 0, 1], [0, 0, 0, - 1, 0 :: int]]))
       = map (unit_row 5) [0..<5]"
proof -
  have run: "precompute_coeff_matrix (try_get_recurrence_for_derivative 2)
      (get_full_coefficient_identifiers 2 2) =
     Inr ([[0, 0], [1, 0], [0, 1], [2, 0], [1, 1]],
          [[1, 0, 0, 0, 0], [0, 1, 0, 0, 0], [0, 0, 1, 0, 0], [0, 0, 0, 1, 0],
           [0, 0, 0, 0, 1], [0, 0, 0, - 1, 0]])"
    using laplace_expansion_2_2 by (simp add: laplace_expansion_def)
  have len: "length [[0, 0], [1, 0], [0, 1], [2, 0], [1, 1 :: int]] = 5" by simp
  from coeff_matrix_shape_and_identity_rows [OF run]
  have "map snd (filter (\<lambda>p. fst p \<in> set [[0, 0], [1, 0], [0, 1], [2, 0], [1, 1]])
                 (zip (get_full_coefficient_identifiers 2 2)
                    [[1, 0, 0, 0, 0], [0, 1, 0, 0, 0], [0, 0, 1, 0, 0], [0, 0, 0, 1, 0],
                     [0, 0, 0, 0, 1], [0, 0, 0, - 1, 0 :: int]]))
       = map (unit_row (length [[0, 0], [1, 0], [0, 1], [2, 0], [1, 1 :: int]]))
           [0..<length [[0, 0], [1, 0], [0, 1], [2, 0], [1, 1 :: int]]]"
    by blast
  then have "map snd (filter (\<lambda>p. fst p \<in> set [[0, 0], [1, 0], [0, 1], [2, 0], [1, 1]])
                 (zip (get_full_coefficient_identifiers 2 2)
                    [[1, 0, 0, 0, 0], [0, 1, 0, 0, 0], [0, 0, 1, 0, 0], [0, 0, 0, 1, 0],
                     [0, 0, 0, 0, 1], [0, 0, 0, - 1, 0 :: int]]))
       = map (unit_row 5) [0..<5]"
    by (simp only: len)
  with laplace_expansion_2_2 show ?thesis by blast
qed

text \<open>
  The same scenario for any order in which the tuples of equal total may be generated:
  the sorted identifiers are (0,0), then (1,0) and (0,1) in some order, then (2,0), (1,1)
  and (0,2) in some order, and in each of the twelve cases five identifiers are stored.
\<close>

lemma sorted_three_way:
  fixes f :: "'a \<Rightarrow> int"
  assumes "sorted (map f ys)" and "\<forall>y \<in> set ys. f y = 0 \<or> f y = 1 \<or> f y = 2"
  shows "ys = filter (\<lambda>y. f y = 0) ys @ filter (\<lambda>y. f y = 1) ys @ filter (\<lambda>y. f y = 2) ys"
  using assms
proof (induction ys)
  case Nil
  then show ?case by simp
next
  case (Cons y ys)
  then have ih: "ys = filter (\<lambda>y. f y = 0) ys @ filter (\<lambda>y. f y = 1) ys @ filter (\<lambda>y. f y = 2) ys"
    and le: "\<forall>z \<in> set ys. f y \<le> f z" by auto
  from Cons.prems(2) consider "f y = 0" | "f y = 1" | "f y = 2" by auto
  then show ?case
  proof cases
    case 1
    then show ?thesis using ih by simp
  next
    case 2
    with le have "filter (\<lambda>y. f y = 0) ys = []" by (auto simp: filter_empty_conv)
    with 2 ih show ?thesis by simp
  next
    case 3
    with le have "filter (\<lambda>y. f y = 0) ys = []" "filter (\<lambda>y. f y = 1) ys = []"
      by (auto simp: filter_empty_conv)
    with 3 ih show ?thesis by simp
  qed
qed

lemma distinct_set_1: "distinct xs \<Longrightarrow> set xs = {a} \<Longrightarrow> xs = [a]"
proof -
  assume d: "distinct xs" and s: "set xs = {a}"
  from d s have "length xs = 1" using distinct_card [of xs] by simp
  then obtain x where "xs = [x]" by (cases xs) auto
  with s show ?thesis by simp
qed

lemma distinct_set_2:
  assumes "distinct xs" and "set xs = {a, b}" and "a \<noteq> b"
  shows "xs = [a, b] \<or> xs = [b, a]"
proof -
  from assms have "length xs = 2" using distinct_card [of xs] by simp
  then obtain x y where xs: "xs = [x, y]"
    by (metis (no_types) One_nat_def Suc_1 length_0_conv length_Suc_conv)
  with assms show ?thesis by (auto simp: doubleton_eq_iff)
qed

lemma distinct_set_3:
  assumes "distinct xs" and "set xs = {a, b, c}" and "a \<noteq> b" "a \<noteq> c" "b \<noteq> c"
  shows "xs = [a, b, c] \<or> xs = [a, c, b] \<or> xs = [b, a, c] \<or> xs = [b, c, a]
       \<or> xs = [c, a, b] \<or> xs = [c, b, a]"
proof -
  from assms have "length xs = 3" using distinct_card [of xs] by simp
  then obtain x y z where xs: "xs = [x, y, z]"
    by (metis (no_types) numeral_3_eq_3 length_0_conv length_Suc_conv)
  from assms(2) xs have m: "x \<in> {a, b, c}" "y \<in> {a, b, c}" "z \<in> {a, b, c}"
    and n: "a \<in> {x, y, z}" "b \<in> {x, y, z}" "c \<in> {x, y, z}" by auto
  from assms(1) xs have dd: "x \<noteq> y" "x \<noteq> z" "y \<noteq> z" by auto
  from m n dd xs show ?thesis by auto
qed

lemma order_2_cases:
  "list_all (\<lambda>f1. list_all (\<lambda>f2.
      (case precompute_coeff_matrix (try_get_recurrence_for_derivative 2) ([[0, 0]] @ f1 @ f2) of
         Inl e \<Rightarrow> False
       | Inr (stored, M) \<Rightarrow>
           length stored = 5
           \<and> filter (\<lambda>i. i \<notin> set stored) ([[0, 0]] @ f1 @ f2)
               = [last (filter (\<lambda>i. i = [2, 0] \<or> i = [0, 2]) ([[0, 0]] @ f1 @ f2))]))
      [[[2, 0], [1, 1], [0, 2]], [[2, 0], [0, 2], [1, 1]], [[1, 1], [2, 0], [0, 2]],
       [[1, 1], [0, 2], [2, 0]], [[0, 2], [2, 0], [1, 1]], [[0, 2], [1, 1], [2, 0]]])
    [[[1, 0], [0, 1]], [[0, 1], [1, 0]]]"
  by code_simp


lemma sum_0_part:
  assumes s: "set gen = {[0, 0], [1, 0], [0, 1], [2, 0], [1, 1], [0, 2 :: int]}"
  shows "set (filter (\<lambda>y. sum_list y = 0) gen) = {[0, 0]}"
  unfolding set_filter s by (rule set_eqI) (simp add: conj_disj_distribR, auto?)

lemma sum_1_part:
  assumes s: "set gen = {[0, 0], [1, 0], [0, 1], [2, 0], [1, 1], [0, 2 :: int]}"
  shows "set (filter (\<lambda>y. sum_list y = 1) gen) = {[1, 0], [0, 1]}"
  unfolding set_filter s by (rule set_eqI) (simp add: conj_disj_distribR, auto?)

lemma sum_2_part:
  assumes s: "set gen = {[0, 0], [1, 0], [0, 1], [2, 0], [1, 1], [0, 2 :: int]}"
  shows "set (filter (\<lambda>y. sum_list y = 2) gen) = {[2, 0], [1, 1], [0, 2]}"
  unfolding set_filter s by (rule set_eqI) (simp add: conj_disj_distribR, auto?)


lemma sorted_by_sum_cases:
  assumes d: "distinct gen"
    and s: "set gen = {[0, 0], [1, 0], [0, 1], [2, 0], [1, 1], [0, 2 :: int]}"
  shows "\<exists>f1 f2. sort_key sum_list gen = [[0, 0]] @ f1 @ f2
     \<and> f1 \<in> set [[[1, 0], [0, 1]], [[0, 1], [1, 0]]]
     \<and> f2 \<in> set [[[2, 0], [1, 1], [0, 2]], [[2, 0], [0, 2], [1, 1]], [[1, 1], [2, 0], [0, 2]],
       [[1, 1], [0, 2], [2, 0]], [[0, 2], [2, 0], [1, 1]], [[0, 2], [1, 1], [2, 0]]]"
proof -
  let ?full = "sort_key sum_list gen"
  let ?F = "\<lambda>k. filter (\<lambda>y. sum_list y = k) gen"
  have keys: "\<forall>y \<in> set ?full. sum_list y = 0 \<or> sum_list y = 1 \<or> sum_list y = 2"
    by (simp add: s)
  have "?full = filter (\<lambda>y. sum_list y = 0) ?full @ filter (\<lambda>y. sum_list y = 1) ?full
      @ filter (\<lambda>y. sum_list y = 2) ?full"
    by (rule sorted_three_way) (use keys in simp_all)
  then have split: "?full = ?F 0 @ ?F 1 @ ?F 2" by (simp only: sort_key_stable)
  have d0: "distinct (?F 0)" and d1: "distinct (?F 1)" and d2: "distinct (?F 2)"
    using d by simp_all
  have s0: "set (?F 0) = {[0, 0]}" using s by (rule sum_0_part)
  have s1: "set (?F 1) = {[1, 0], [0, 1]}" using s by (rule sum_1_part)
  have s2: "set (?F 2) = {[2, 0], [1, 1], [0, 2]}" using s by (rule sum_2_part)
  have f0: "?F 0 = [[0, 0]]" using d0 s0 by (rule distinct_set_1)
  have f1: "?F 1 = [[1, 0], [0, 1]] \<or> ?F 1 = [[0, 1], [1, 0]]"
    using d1 s1 by (rule distinct_set_2) simp
  have f2: "?F 2 = [[2, 0], [1, 1], [0, 2]] \<or> ?F 2 = [[2, 0], [0, 2], [1, 1]]
      \<or> ?F 2 = [[1, 1], [2, 0], [0, 2]] \<or> ?F 2 = [[1, 1], [0, 2], [2, 0]]
      \<or> ?F 2 = [[0, 2], [2, 0], [1, 1]] \<or> ?F 2 = [[0, 2], [1, 1], [2, 0]]"
    using d2 s2 by (rule distinct_set_3) simp_all
  from f1 have m1: "?F 1 \<in> set [[[1, 0], [0, 1]], [[0, 1], [1, 0]]]" by fastforce
  from f2 have m2: "?F 2 \<in> set [[[2, 0], [1, 1], [0, 2]], [[2, 0], [0, 2], [1, 1]],
       [[1, 1], [2, 0], [0, 2]], [[1, 1], [0, 2], [2, 0]], [[0, 2], [2, 0], [1, 1]],
       [[0, 2], [1, 1], [2, 0]]]" by fastforce
  from split f0 have "?full = [[0, 0]] @ ?F 1 @ ?F 2" by simp
  with m1 m2 show ?thesis by blast
qed


lemma laplace_2d_order_2_any_tie_order:
  assumes d: "distinct gen"
    and s: "set gen = {[0, 0], [1, 0], [0, 1], [2, 0], [1, 1], [0, 2 :: int]}"
  shows "case precompute_coeff_matrix (try_get_recurrence_for_derivative 2)
                (sort_key sum_list gen) of
           Inl e \<Rightarrow> False
         | Inr (stored, M) \<Rightarrow>
             length stored = 5
             \<and> filter (\<lambda>i. i \<notin> set stored) (sort_key sum_list gen)
                 = [last (filter (\<lambda>i. i = [2, 0] \<or> i = [0, 2]) (sort_key sum_list gen))]"
proof -
  from sorted_by_sum_cases [OF d s] obtain f1 f2 where
    full: "sort_key sum_list gen = [[0, 0]] @ f1 @ f2"
    and f1: "f1 \<in> set [[[1, 0], [0, 1]], [[0, 1], [1, 0]]]"
    and f2: "f2 \<in> set [[[2, 0], [1, 1], [0, 2]], [[2, 0], [0, 2], [1, 1]], [[1, 1], [2, 0], [0, 2]],
       [[1, 1], [0, 2], [2, 0]], [[0, 2], [2, 0], [1, 1]], [[0, 2], [1, 1], [2, 0]]]"
    by blast
  from order_2_cases f1 f2 show ?thesis
    unfolding full list_all_iff by blast
qed

text \<open>
  C3.  For the Laplace-conforming expansion in dimension 2 of order 2, the full
  identifiers are (0,0), (1,0), (0,1), (2,0), (1,1), (0,2); the stored identifiers are
  all of them but (0,2), which is processed after (2,0); there are five of them.  Whatever
  the order in which the six tuples are generated before they are sorted by total, five
  identifiers are stored and the one left out is the one of (2,0) and (0,2) that is
  processed second.
\<close>

theorem laplace_2d_order_2_identifiers:
  "get_full_coefficient_identifiers 2 2 = [[0, 0], [1, 0], [0, 1], [2, 0], [1, 1], [0, 2]]
   \<and> (\<exists>stored M. laplace_expansion 2 2 = Inr (stored, M)
        \<and> stored = [[0, 0], [1, 0], [0, 1], [2, 0], [1, 1]]
        \<and> length stored = 5
        \<and> filter (\<lambda>i. i \<notin> set stored) (get_full_coefficient_identifiers 2 2) = [[0, 2]]
        \<and> py_index (get_full_coefficient_identifiers 2 2) [2, 0] = Some 3
        \<and> py_index (get_full_coefficient_identifiers 2 2) [0, 2] = Some 5)
   \<and> (\<forall>gen. distinct gen \<and> set gen = {[0, 0], [1, 0], [0, 1], [2, 0], [1, 1], [0, 2]} \<longrightarrow>
        (case precompute_coeff_matrix (try_get_recurrence_for_derivative 2)
                (sort_key sum_list gen) of
           Inl e \<Rightarrow> False
         | Inr (stored, M) \<Rightarrow>
             length stored = 5
             \<and> filter (\<lambda>i. i \<notin> set stored) (sort_key sum_list gen)
                 = [last (filter (\<lambda>i. i = [2, 0] \<or> i = [0, 2]) (sort_key sum_list gen))]))"
proof (intro conjI allI impI)
  show "get_full_coefficient_identifiers 2 2 = [[0, 0], [1, 0], [0, 1], [2, 0], [1, 1], [0, 2]]"
    by (rule full_identifiers_2_2)
  show "\<exists>stored M. laplace_expansion 2 2 = Inr (stored, M)
        \<and> stored = [[0, 0], [1, 0], [0, 1], [2, 0], [1, 1]]
        \<and> length stored = 5
        \<and> filter (\<lambda>i. i \<notin> set stored) (get_full_coefficient_identifiers 2 2) = [[0, 2]]
        \<and> py_index (get_full_coefficient_identifiers 2 2) [2, 0] = Some 3
        \<and> py_index (get_full_coefficient_identifiers 2 2) [0, 2] = Some 5"
    using laplace_expansion_2_2 by (simp add: full_identifiers_2_2)
next
  fix gen :: "multi_index list"
  assume "distinct gen \<and> set gen = {[0, 0], [1, 0], [0, 1], [2, 0], [1, 1], [0, 2]}"
  then show "case precompute_coeff_matrix (try_get_recurrence_for_derivative 2)
                (sort_key sum_list gen) of
           Inl e \<Rightarrow> False
         | Inr (stored, M) \<Rightarrow>
             length stored = 5
             \<and> filter (\<lambda>i. i \<notin> set stored) (sort_key sum_list gen)
                 = [last (filter (\<lambda>i. i = [2, 0] \<or> i = [0, 2]) (sort_key sum_list gen))]"
    using laplace_2d_order_2_any_tie_order by blast
qed

text \<open>
  With the tuples generated last entry fastest, (0,2) is processed before (2,0), and it
  is (2,0) that is left out.
\<close>

theorem laplace_2d_order_2_identifiers_witness:
  "distinct [[0, 0], [0, 1], [1, 0], [0, 2], [1, 1], [2, 0 :: int]]
   \<and> set [[0, 0], [0, 1], [1, 0], [0, 2], [1, 1], [2, 0 :: int]]
       = {[0, 0], [1, 0], [0, 1], [2, 0], [1, 1], [0, 2]}
   \<and> sort_key sum_list [[0, 0], [0, 1], [1, 0], [0, 2], [1, 1], [2, 0 :: int]]
       = [[0, 0], [0, 1], [1, 0], [0, 2], [1, 1], [2, 0]]
   \<and> (case precompute_coeff_matrix (try_get_recurrence_for_derivative 2)
              (sort_key sum_list [[0, 0], [0, 1], [1, 0], [0, 2], [1, 1], [2, 0]]) of
         Inl e \<Rightarrow> False
       | Inr (stored, M) \<Rightarrow>
           length stored = 5
           \<and> filter (\<lambda>i. i \<notin> set stored)
                 (sort_key sum_list [[0, 0], [0, 1], [1, 0], [0, 2], [1, 1], [2, 0]])
               = [[2, 0]])"
proof -
  let ?gen = "[[0, 0], [0, 1], [1, 0], [0, 2], [1, 1], [2, 0 :: int]]"
  have d: "distinct ?gen" by simp
  have s: "set ?gen = {[0, 0], [1, 0], [0, 1], [2, 0], [1, 1], [0, 2]}" by code_simp
  have o: "sort_key sum_list ?gen = [[0, 0], [0, 1], [1, 0], [0, 2], [1, 1], [2, 0]]"
    by code_simp
  have l: "last (filter (\<lambda>i. i = [2, 0] \<or> i = [0, 2]) (sort_key sum_list ?gen)) = [2, 0]"
    by code_simp
  from laplace_2d_order_2_identifiers d s
  have "case precompute_coeff_matrix (try_get_recurrence_for_derivative 2)
              (sort_key sum_list ?gen) of
         Inl e \<Rightarrow> False
       | Inr (stored, M) \<Rightarrow>
           length stored = 5
           \<and> filter (\<lambda>i. i \<notin> set stored) (sort_key sum_list ?gen)
               = [last (filter (\<lambda>i. i = [2, 0] \<or> i = [0, 2]) (sort_key sum_list ?gen))]"
    by blast
  then have "case precompute_coeff_matrix (try_get_recurrence_for_derivative 2)
              (sort_key sum_list ?gen) of
         Inl e \<Rightarrow> False
       | Inr (stored, M) \<Rightarrow>
           length stored = 5
           \<and> filter (\<lambda>i. i \<notin> set stored) (sort_key sum_list ?gen) = [[2, 0]]"
    by (simp only: l)
  with d s o show ?thesis by blast
qed

section \<open>Properties of the derivative cache\<close>

subsection \<open>Sums and ranges of 64-bit integers\<close>

lemma fold_wrap64_sum:
  "0 \<le> acc \<Longrightarrow> list_all (\<lambda>x. 0 \<le> x) ds \<Longrightarrow> acc + sum_list ds < 2 ^ 63 \<Longrightarrow>
   fold (\<lambda>x acc. wrap64 (acc + x)) ds acc = acc + sum_list ds"
proof (induction ds arbitrary: acc)
  case Nil
  then show ?case by simp
next
  case (Cons d ds)
  from Cons.prems have d: "0 \<le> d" and ds: "list_all (\<lambda>x. 0 \<le> x) ds" by simp_all
  from ds have s: "0 \<le> sum_list ds" by (auto simp: list_all_iff intro: sum_list_nonneg)
  have "int64 (acc + d)" using Cons.prems(1,3) d s by (simp add: int64_def)
  then have w: "wrap64 (acc + d) = acc + d" by (rule wrap64_id)
  have "fold (\<lambda>x acc. wrap64 (acc + x)) ds (acc + d) = acc + d + sum_list ds"
    by (rule Cons.IH) (use Cons.prems d ds in simp_all)
  then show ?case by (simp add: w)
qed

lemma py_sum_eq:
  "list_all (\<lambda>x. 0 \<le> x) ds \<Longrightarrow> sum_list ds < 2 ^ 63 \<Longrightarrow> py_sum ds = sum_list ds"
  using fold_wrap64_sum [of 0 ds] by (simp add: py_sum_def)

lemma range_count: "0 \<le> d \<Longrightarrow> d < 2 ^ 63 - 1 \<Longrightarrow> nat (wrap64 (1 + d) - 1) = nat d"
proof -
  assume "0 \<le> d" "d < 2 ^ 63 - 1"
  then have "int64 (1 + d)" by (simp add: int64_def)
  then have "wrap64 (1 + d) = 1 + d" by (rule wrap64_id)
  then show ?thesis by simp
qed

lemma range_count_le: "0 \<le> d \<Longrightarrow> d < 2 ^ 63 \<Longrightarrow> int (nat (wrap64 (1 + d) - 1)) \<le> d"
proof (cases "d < 2 ^ 63 - 1")
  case True
  assume "0 \<le> d"
  with True show ?thesis by (simp add: range_count)
next
  case False
  assume "0 \<le> d" "d < 2 ^ 63"
  with False have "d = 2 ^ 63 - 1" by simp
  then show ?thesis by (simp add: wrap64_def)
qed

subsection \<open>The closest cached multi-index\<close>

lemma np_binop_same_length: "length a = length b \<Longrightarrow> np_binop f a b = Inr (map2 f a b)"
  by (simp add: np_binop_def)

lemma all_ge_iff_mi_le:
  "length a = length b \<Longrightarrow> list_all id (map2 (\<lambda>x y. y \<le> x) a b) \<longleftrightarrow> mi_le b a"
  unfolding mi_le_def
proof (induction a arbitrary: b)
  case Nil
  then show ?case by simp
next
  case (Cons x a)
  then show ?case by (cases b) auto
qed

lemma dist_sum_eq_manhattan:
  "mi_le b a \<Longrightarrow> sum_list (map2 (\<lambda>x y. x - y) a b) = manhattan a b"
  unfolding mi_le_def manhattan_def
proof (induction b a rule: list_all2_induct)
  case Nil
  then show ?case by simp
next
  case (Cons y b x a)
  then show ?case by simp
qed

lemma manhattan_eq_sum_diff:
  "mi_le b a \<Longrightarrow> manhattan a b = sum_list a - sum_list b"
  unfolding mi_le_def manhattan_def
proof (induction b a rule: list_all2_induct)
  case Nil
  then show ?case by simp
next
  case (Cons y b x a)
  then show ?case by simp
qed

lemma nonneg_le_sum_list:
  "list_all (\<lambda>x. 0 \<le> x) (xs :: int list) \<Longrightarrow> x \<in> set xs \<Longrightarrow> x \<le> sum_list xs"
  by (simp add: list_all_iff member_le_sum_list)

lemma nonneg_sum_int64:
  assumes "list_all (\<lambda>x. 0 \<le> x) mi" and "sum_list mi < 2 ^ 63"
  shows "list_all int64 mi"
  unfolding list_all_iff
proof
  fix x assume x: "x \<in> set mi"
  with assms(1) have "0 \<le> x" by (simp add: list_all_iff)
  moreover from assms(1) x have "x \<le> sum_list mi" by (rule nonneg_le_sum_list)
  ultimately show "int64 x" using assms(2) by (simp add: int64_def)
qed

lemma is_cache_key_int64: "is_cache_key n k \<Longrightarrow> list_all int64 k"
  by (auto simp: is_cache_key_def list_all_iff int64_def)

lemma dominates_eq:
  "list_all int64 mi \<Longrightarrow> list_all int64 k \<Longrightarrow> length k = length mi \<Longrightarrow>
   dominates mi k = Inr (mi_le k mi)"
  by (simp add: dominates_def np_array_Inr np_binop_same_length all_ge_iff_mi_le)

lemma map2_wrap64_diff:
  "mi_le b a \<Longrightarrow> list_all (\<lambda>x. 0 \<le> x) b \<Longrightarrow> list_all (\<lambda>x. x < 2 ^ 63) a \<Longrightarrow>
   map2 (\<lambda>x y. wrap64 (x - y)) a b = map2 (\<lambda>x y. x - y) a b"
  unfolding mi_le_def
proof (induction b a rule: list_all2_induct)
  case Nil
  then show ?case by simp
next
  case (Cons y b x a)
  then have "int64 (x - y)" by (simp add: int64_def)
  then have "wrap64 (x - y) = x - y" by (rule wrap64_id)
  with Cons show ?case by simp
qed

lemma mi_dist_eq:
  assumes "mi_le b a" and "list_all (\<lambda>x. 0 \<le> x) b" and "list_all (\<lambda>x. x < 2 ^ 63) a"
  shows "mi_dist a b = Inr (map2 (\<lambda>x y. x - y) a b)"
proof -
  from assms(1) have len: "length b = length a" and le: "\<forall>i<length b. b ! i \<le> a ! i"
    by (auto simp: mi_le_def list_all2_conv_all_nth)
  have b: "list_all int64 b"
    unfolding list_all_length
  proof (intro allI impI)
    fix i assume i: "i < length b"
    with assms(2) have "0 \<le> b ! i" by (simp add: list_all_length)
    moreover from assms(3) i len have "a ! i < 2 ^ 63" by (simp add: list_all_length)
    moreover from le i have "b ! i \<le> a ! i" by simp
    ultimately show "int64 (b ! i)" by (simp add: int64_def)
  qed
  have a: "list_all int64 a"
    unfolding list_all_length
  proof (intro allI impI)
    fix i assume i: "i < length a"
    with assms(2) len have "0 \<le> b ! i" by (simp add: list_all_length)
    moreover from assms(3) i have "a ! i < 2 ^ 63" by (simp add: list_all_length)
    moreover from le i len have "b ! i \<le> a ! i" by simp
    ultimately show "int64 (a ! i)" by (simp add: int64_def)
  qed
  show ?thesis
    using len by (simp add: mi_dist_def np_array_int_Inr a b np_binop_same_length
        map2_wrap64_diff [OF assms])
qed

lemma sum_list_nonneg_all: "list_all (\<lambda>x. 0 \<le> x) (xs :: int list) \<Longrightarrow> 0 \<le> sum_list xs"
  by (auto simp: list_all_iff intro: sum_list_nonneg)

lemma dominated_keys_eq:
  assumes "list_all (\<lambda>x. 0 \<le> x) mi" and "sum_list mi < 2 ^ 63"
  shows "\<forall>k \<in> set ks. is_cache_key (length mi) k \<Longrightarrow>
   dominated_keys mi ks = Inr (map (\<lambda>k. (k, manhattan mi k)) (filter (\<lambda>k. mi_le k mi) ks))"
proof (induction ks)
  case Nil
  then show ?case by simp
next
  case (Cons k ks)
  then have key: "is_cache_key (length mi) k" by simp
  then have len: "length k = length mi" and nn: "list_all (\<lambda>x. 0 \<le> x) k"
    by (auto simp: is_cache_key_def list_all_iff)
  have mi64: "list_all int64 mi" using assms by (rule nonneg_sum_int64)
  have lt: "list_all (\<lambda>x. x < 2 ^ 63) mi"
    using mi64 by (auto simp: list_all_iff int64_def)
  have dom: "dominates mi k = Inr (mi_le k mi)"
    using mi64 is_cache_key_int64 [OF key] len by (rule dominates_eq)
  have ih: "dominated_keys mi ks
      = Inr (map (\<lambda>k. (k, manhattan mi k)) (filter (\<lambda>k. mi_le k mi) ks))"
    using Cons by simp
  show ?case
  proof (cases "mi_le k mi")
    case True
    have md: "mi_dist mi k = Inr (map2 (\<lambda>x y. x - y) mi k)"
      using True nn lt by (rule mi_dist_eq)
    have s: "sum_list (map2 (\<lambda>x y. x - y) mi k) = manhattan mi k"
      using True by (rule dist_sum_eq_manhattan)
    have "list_all (\<lambda>x. 0 \<le> x) (map2 (\<lambda>x y. x - y) mi k)"
      using True by (auto simp: mi_le_def list_all2_conv_all_nth list_all_length)
    moreover have "sum_list (map2 (\<lambda>x y. x - y) mi k) < 2 ^ 63"
      using s manhattan_eq_sum_diff [OF True] sum_list_nonneg_all [OF nn] assms(2) by simp
    ultimately have "py_sum (map2 (\<lambda>x y. x - y) mi k) = manhattan mi k"
      using s by (simp add: py_sum_eq)
    then show ?thesis using True dom md ih by simp
  next
    case False
    then show ?thesis using dom ih by simp
  qed
qed

lemma fold_min_key:
  "fold (\<lambda>y m. if snd y < snd m then y else m) rest x \<in> set (x # rest)
   \<and> (\<forall>y \<in> set (x # rest). snd (fold (\<lambda>y m. if snd y < snd m then y else m) rest x) \<le> snd y)"
  for x :: "'a \<times> int"
proof (induction rest arbitrary: x)
  case Nil
  then show ?case by simp
next
  case (Cons r rest)
  show ?case
  proof (cases "snd r < snd x")
    case True
    with Cons [of r] show ?thesis by auto
  next
    case False
    with Cons [of x] show ?thesis by auto
  qed
qed

lemma py_min_key_props:
  assumes "xs \<noteq> []"
  shows "\<exists>m v. py_min_key xs = Inr m \<and> (m, v) \<in> set xs \<and> (\<forall>y \<in> set xs. v \<le> snd y)"
proof -
  from assms obtain x rest where xs: "xs = x # rest" by (cases xs) auto
  let ?r = "fold (\<lambda>y m. if snd y < snd m then y else m) rest x"
  have "py_min_key xs = Inr (fst ?r)" by (simp add: xs py_min_key_def)
  moreover have "(fst ?r, snd ?r) \<in> set xs" using fold_min_key [of rest x] xs by simp
  moreover have "\<forall>y \<in> set xs. snd ?r \<le> snd y" using fold_min_key [of rest x] xs by simp
  ultimately show ?thesis by blast
qed

lemma get_closest_cached_mi_props:
  assumes nn: "list_all (\<lambda>x. 0 \<le> x) mi" and sm: "sum_list mi < 2 ^ 63"
    and keys: "\<forall>k \<in> set (map fst cache). is_cache_key (length mi) k"
    and ne: "dominated_cached cache mi \<noteq> []"
  shows "\<exists>c. get_closest_cached_mi cache mi = Inr c \<and> c \<in> set (dominated_cached cache mi)
     \<and> (\<forall>k \<in> set (dominated_cached cache mi). manhattan mi c \<le> manhattan mi k)"
proof -
  let ?ks = "map (\<lambda>k. (k, manhattan mi k)) (dominated_cached cache mi)"
  have dk: "dominated_keys mi (map fst cache) = Inr ?ks"
    using dominated_keys_eq [OF nn sm keys] by (simp add: dominated_cached_def)
  from ne have "?ks \<noteq> []" by simp
  from py_min_key_props [OF this] obtain m v where
    m: "py_min_key ?ks = Inr m" "(m, v) \<in> set ?ks" "\<forall>y \<in> set ?ks. v \<le> snd y"
    by blast
  from m(2) have mv: "m \<in> set (dominated_cached cache mi)" "v = manhattan mi m" by auto
  have "get_closest_cached_mi cache mi = Inr m"
    by (simp add: get_closest_cached_mi_def dk m(1))
  moreover have "\<forall>k \<in> set (dominated_cached cache mi). manhattan mi m \<le> manhattan mi k"
    using m(3) mv(2) by auto
  ultimately show ?thesis using mv(1) by blast
qed

lemma zeros_le: "list_all (\<lambda>x. 0 \<le> x) mi \<Longrightarrow> mi_le (replicate (length mi) 0) mi"
  by (auto simp: mi_le_def list_all2_conv_all_nth list_all_length)

lemma cache_inv_keys:
  "cache_inv n base cache \<Longrightarrow> k \<in> set (map fst cache) \<Longrightarrow> is_cache_key n k"
  by (auto simp: cache_inv_def list_all_iff)

lemma cache_inv_keys_length:
  "cache_inv n base cache \<Longrightarrow> k \<in> set (map fst cache) \<Longrightarrow> length k = n"
  by (auto simp: cache_inv_def list_all_iff is_cache_key_def)

lemma cache_inv_dominated_nonempty:
  assumes "cache_inv n base cache" and "length mi = n" and "list_all (\<lambda>x. 0 \<le> x) mi"
  shows "replicate n 0 \<in> set (dominated_cached cache mi)"
proof -
  from assms(1) have "map_of cache (replicate n 0) = Some base" by (simp add: cache_inv_def)
  then have "replicate n 0 \<in> set (map fst cache)"
    by (force dest: map_of_SomeD)
  with zeros_le [OF assms(3)] assms(2) show ?thesis by (simp add: dominated_cached_def)
qed

lemma get_closest_cached_mi_nearest:
  assumes "cache_inv n base cache" and "length mi = n" and "list_all (\<lambda>x. 0 \<le> x) mi"
    and "sum_list mi < 2 ^ 63"
  shows "\<exists>c. get_closest_cached_mi cache mi = Inr c
     \<and> c \<in> fst ` set cache \<and> mi_le c mi
     \<and> (\<forall>k \<in> fst ` set cache. mi_le k mi \<longrightarrow> manhattan mi c \<le> manhattan mi k)"
proof -
  have keys: "\<forall>k \<in> set (map fst cache). is_cache_key (length mi) k"
    using cache_inv_keys [OF assms(1)] assms(2) by simp
  have ne: "dominated_cached cache mi \<noteq> []"
    using cache_inv_dominated_nonempty [OF assms(1-3)] by auto
  from get_closest_cached_mi_props [OF assms(3,4) keys ne] show ?thesis
    by (auto simp: dominated_cached_def)
qed

lemma is_multi_index_bounds:
  "is_multi_index n mi \<Longrightarrow>
   length mi = n \<and> list_all (\<lambda>x. 0 \<le> x) mi \<and> sum_list mi < 2 ^ 63"
  by (simp add: is_multi_index_def)

text \<open>
  C6, as the specification states it, fails where the sum of the distances wraps around.
  With the keys (0,0) and (1,0) cached and the target \<open>(2^62, 2^62)\<close>, both keys are
  componentwise at most the target and (1,0) is the nearer one; the code adds up
  \<open>2^62 + 2^62\<close> for (0,0), which wraps around to \<open>-2^63\<close>, and returns (0,0).
\<close>

theorem closest_cached_mi_wraps_counterexample:
  "cache_inv 2 (Sym ''f'') [([0, 0], Sym ''f''), ([1, 0], Diff (Sym ''f'') ''x'')]
   \<and> length [2 ^ 62, 2 ^ 62 :: int] = 2 \<and> (0 :: int) \<le> 2 ^ 62
   \<and> get_closest_cached_mi [([0, 0], Sym ''f''), ([1, 0], Diff (Sym ''f'') ''x'')]
        [2 ^ 62, 2 ^ 62] = Inr [0, 0]
   \<and> [1, 0 :: int] \<in> fst ` set [([0, 0], Sym ''f''), ([1, 0], Diff (Sym ''f'') ''x'')]
   \<and> mi_le [1, 0] [2 ^ 62, 2 ^ 62]
   \<and> manhattan [2 ^ 62, 2 ^ 62] [1, 0] < manhattan [2 ^ 62, 2 ^ 62] [0, 0]"
  by code_simp

text \<open>
  C6, amended.  In a derivative cache (its keys are multi-indices of the number of
  variables, with 64-bit entries, the zero multi-index among them), for every target
  multi-index with entries that are not negative and add up to less than \<open>2^63\<close>, cached
  or not, the search returns a cached key that is componentwise at most the target and
  whose Manhattan distance to the target is least among the cached keys that are
  componentwise at most the target.
\<close>

theorem closest_cached_mi_is_nearest_dominated:
  assumes "cache_inv n base cache" and "length mi = n" and "list_all (\<lambda>x. 0 \<le> x) mi"
    and "sum_list mi < 2 ^ 63"
  shows "\<exists>c. get_closest_cached_mi cache mi = Inr c
     \<and> c \<in> fst ` set cache \<and> mi_le c mi
     \<and> (\<forall>k \<in> fst ` set cache. mi_le k mi \<longrightarrow> manhattan mi c \<le> manhattan mi k)"
  using assms by (rule get_closest_cached_mi_nearest)

text \<open>
  After \<open>diff((1,2))\<close> on two variables the cache holds (0,0), (1,0), (1,1), (1,2); the
  closest key for the target (2,1) is (1,1), at distance 1.
\<close>

theorem closest_cached_mi_is_nearest_dominated_witness:
  "cache_inv 2 (Sym ''f'')
     [([0, 0], Sym ''f''), ([1, 0], Diff (Sym ''f'') ''x''),
      ([1, 1], Diff (Diff (Sym ''f'') ''x'') ''y''),
      ([1, 2], Diff (Diff (Diff (Sym ''f'') ''x'') ''y'') ''y'')]
   \<and> length [2, 1 :: int] = 2 \<and> list_all (\<lambda>x. 0 \<le> x) [2, 1 :: int]
   \<and> sum_list [2, 1 :: int] < 2 ^ 63
   \<and> get_closest_cached_mi
       [([0, 0], Sym ''f''), ([1, 0], Diff (Sym ''f'') ''x''),
        ([1, 1], Diff (Diff (Sym ''f'') ''x'') ''y''),
        ([1, 2], Diff (Diff (Diff (Sym ''f'') ''x'') ''y'') ''y'')] [2, 1] = Inr [1, 1]
   \<and> manhattan [2, 1] [1, 1] = 1"
proof -
  let ?cache = "[([0, 0], Sym ''f''), ([1, 0], Diff (Sym ''f'') ''x''),
      ([1, 1], Diff (Diff (Sym ''f'') ''x'') ''y''),
      ([1, 2], Diff (Diff (Diff (Sym ''f'') ''x'') ''y'') ''y'')]"
  have a: "cache_inv 2 (Sym ''f'') ?cache" by code_simp
  have b: "length [2, 1 :: int] = 2" by simp
  have b': "list_all (\<lambda>x. 0 \<le> x) [2, 1 :: int]" by simp
  have b'': "sum_list [2, 1 :: int] < 2 ^ 63" by simp
  have c: "get_closest_cached_mi ?cache [2, 1] = Inr [1, 1]" by code_simp
  have d: "manhattan [2, 1] [1, 1] = 1" by code_simp
  from closest_cached_mi_is_nearest_dominated [OF a b b' b''] a b b' b'' c d
  show ?thesis by blast
qed

subsection \<open>The walk from a cached multi-index\<close>

lemma mi_le_refl: "mi_le a a"
  by (simp add: mi_le_def list_all2_conv_all_nth)

lemma mi_le_trans: "mi_le a b \<Longrightarrow> mi_le b c \<Longrightarrow> mi_le a c"
  using list_all2_trans [of "(\<le>)" "(\<le>)" "(\<le>)" a b c] by (auto simp: mi_le_def)

lemma mi_le_length: "mi_le a b \<Longrightarrow> length a = length b"
  by (simp add: mi_le_def list_all2_lengthD)

lemma mi_le_sum: "mi_le a b \<Longrightarrow> sum_list a \<le> sum_list b"
  unfolding mi_le_def by (induction a b rule: list_all2_induct) auto

lemma sum_list_bump:
  "i < length (xs :: int list) \<Longrightarrow> sum_list (xs[i := xs ! i + d]) = sum_list xs + d"
proof (induction xs arbitrary: i)
  case Nil
  then show ?case by simp
next
  case (Cons x xs)
  then show ?case by (cases i) auto
qed

lemma mi_le_bump: "0 \<le> d \<Longrightarrow> mi_le xs (xs[i := xs ! i + d])"
  by (cases "i < length xs")
    (auto simp: mi_le_def list_all2_conv_all_nth nth_list_update list_update_beyond)

text \<open>
  The steps on one axis, when the entry of that axis stays a 64-bit integer: the entry is
  raised by one per step.
\<close>

lemma steps_on_axis_props:
  "idx < length cur \<longrightarrow> - (2 ^ 63) \<le> cur ! idx \<and> cur ! idx + int k < 2 ^ 63 \<Longrightarrow>
   steps_on_axis idx v k cur = (ys, c, err) \<Longrightarrow>
     mi_le cur c
     \<and> (\<forall>z \<in> set ys. mi_le cur (snd z) \<and> sum_list cur < sum_list (snd z) \<and> mi_le (snd z) c)
     \<and> sorted_wrt (<) (map (\<lambda>z. sum_list (snd z)) ys)
     \<and> c = (if idx < length cur then cur[idx := cur ! idx + int k] else cur)"
proof (induction k arbitrary: cur ys c err)
  case 0
  then show ?case by (simp add: mi_le_refl)
next
  case (Suc k)
  show ?case
  proof (cases "idx < length cur")
    case False
    with Suc.prems show ?thesis by (simp add: mi_le_refl)
  next
    case True
    let ?cur = "cur[idx := cur ! idx + 1]"
    from Suc.prems(1) True have bd: "- (2 ^ 63) \<le> cur ! idx" "cur ! idx + int (Suc k) < 2 ^ 63"
      by simp_all
    then have "int64 (cur ! idx + 1)" by (simp add: int64_def)
    then have w: "wrap64 (cur ! idx + 1) = cur ! idx + 1" by (rule wrap64_id)
    obtain ys' c' err' where r: "steps_on_axis idx v k ?cur = (ys', c', err')"
      by (cases "steps_on_axis idx v k ?cur") auto
    with Suc.prems(2) True w have eq: "ys = (v, ?cur) # ys'" "c = c'" "err = err'" by auto
    have pre: "idx < length ?cur \<longrightarrow> - (2 ^ 63) \<le> ?cur ! idx \<and> ?cur ! idx + int k < 2 ^ 63"
      using True bd by simp
    from Suc.IH [OF pre r]
    have ih1: "mi_le ?cur c'"
      and ih2: "\<forall>z \<in> set ys'. mi_le ?cur (snd z) \<and> sum_list ?cur < sum_list (snd z)
                  \<and> mi_le (snd z) c'"
      and ih3: "sorted_wrt (<) (map (\<lambda>z. sum_list (snd z)) ys')"
      and ih4: "c' = (if idx < length ?cur then ?cur[idx := ?cur ! idx + int k] else ?cur)"
      by blast+
    have b: "mi_le cur ?cur" by (simp add: mi_le_bump)
    have s: "sum_list ?cur = sum_list cur + 1" using True by (simp add: sum_list_bump)
    have 1: "mi_le cur c" using b ih1 eq by (blast intro: mi_le_trans)
    have 2: "mi_le cur (snd z) \<and> sum_list cur < sum_list (snd z) \<and> mi_le (snd z) c"
      if "z \<in> set ys" for z
    proof (cases "z = (v, ?cur)")
      case True
      then show ?thesis using b s ih1 eq by simp
    next
      case False
      with that eq have "z \<in> set ys'" by simp
      with ih2 have "mi_le ?cur (snd z)" "sum_list ?cur < sum_list (snd z)" "mi_le (snd z) c'"
        by auto
      then show ?thesis using b s eq by (auto intro: mi_le_trans)
    qed
    have 3: "sorted_wrt (<) (map (\<lambda>z. sum_list (snd z)) ys)"
      using ih2 ih3 s eq by auto
    have 4: "c = cur[idx := cur ! idx + int (Suc k)]"
      using ih4 eq True by (simp add: add.assoc)
    from 1 2 3 True show ?thesis unfolding 4 [symmetric] by simp
  qed
qed

lemma is_cache_key_between:
  assumes "is_cache_key n a" and "is_cache_key n c" and "mi_le a z" and "mi_le z c"
  shows "is_cache_key n z"
proof -
  from assms(3,4) have len: "length a = length z" "length z = length c"
    and le: "\<forall>i<length z. a ! i \<le> z ! i" "\<forall>i<length z. z ! i \<le> c ! i"
    by (auto simp: mi_le_def list_all2_conv_all_nth)
  have "0 \<le> z ! i \<and> z ! i < 2 ^ 63" if "i < length z" for i
  proof -
    from assms(1) that len have "0 \<le> a ! i" by (simp add: is_cache_key_def list_all_length)
    moreover from assms(2) that len have "c ! i < 2 ^ 63"
      by (simp add: is_cache_key_def list_all_length)
    moreover from le that have "a ! i \<le> z ! i" "z ! i \<le> c ! i" by simp_all
    ultimately show ?thesis by simp
  qed
  moreover from assms(1) len have "length z = n" by (simp add: is_cache_key_def)
  ultimately show ?thesis by (simp add: is_cache_key_def list_all_length)
qed

lemma is_cache_key_update:
  assumes "is_cache_key n cur" and "0 \<le> x" and "x < 2 ^ 63"
  shows "is_cache_key n (cur[idx := x])"
proof -
  have "0 \<le> cur[idx := x] ! i \<and> cur[idx := x] ! i < 2 ^ 63" if "i < length cur" for i
    using assms that by (cases "i = idx") (simp_all add: is_cache_key_def list_all_length)
  with assms(1) show ?thesis by (simp add: is_cache_key_def list_all_length)
qed

text \<open>
  The walk over the axes from a key, when on every axis of the key the distance is not
  negative and leads to a 64-bit entry: every multi-index it yields is a key above the
  start, with a larger total, and the totals increase along the walk.
\<close>

lemma walk_axes_props:
  "is_cache_key n cur \<Longrightarrow>
   \<forall>i<length ds. idx + i < n \<longrightarrow> 0 \<le> fst (ds ! i) \<and> cur ! (idx + i) + fst (ds ! i) < 2 ^ 63 \<Longrightarrow>
   walk_axes idx ds cur = (zs, err) \<Longrightarrow>
     (\<forall>z \<in> set zs. is_cache_key n (snd z) \<and> mi_le cur (snd z) \<and> sum_list cur < sum_list (snd z))
     \<and> sorted_wrt (<) (map (\<lambda>z. sum_list (snd z)) zs)"
proof (induction ds arbitrary: idx cur zs err)
  case Nil
  then show ?case by simp
next
  case (Cons d ds)
  obtain mi_i v where d: "d = (mi_i, v)" by (cases d)
  let ?k = "nat (wrap64 (1 + mi_i) - 1)"
  obtain ys c e where st: "steps_on_axis idx v ?k cur = (ys, c, e)"
    by (cases "steps_on_axis idx v ?k cur") auto
  have len: "length cur = n" using Cons.prems(1) by (simp add: is_cache_key_def)
  have nn: "0 \<le> cur ! i \<and> cur ! i < 2 ^ 63" if "i < n" for i
    using Cons.prems(1) that by (simp add: is_cache_key_def list_all_length)
  have ax: "0 \<le> mi_i \<and> cur ! idx + mi_i < 2 ^ 63" if "idx < n"
    using Cons.prems(2) [rule_format, of 0] that d by simp
  have k: "int ?k \<le> mi_i" if "idx < n"
  proof -
    from ax [OF that] nn [OF that] have "0 \<le> mi_i" "mi_i < 2 ^ 63" by simp_all
    then show ?thesis by (rule range_count_le)
  qed
  have pre: "idx < length cur \<longrightarrow> - (2 ^ 63) \<le> cur ! idx \<and> cur ! idx + int ?k < 2 ^ 63"
  proof
    assume "idx < length cur"
    then have i: "idx < n" using len by simp
    from nn [OF i] ax [OF i] k [OF i] show "- (2 ^ 63) \<le> cur ! idx \<and> cur ! idx + int ?k < 2 ^ 63"
      by simp
  qed
  from steps_on_axis_props [OF pre st]
  have sp: "mi_le cur c" "\<forall>z \<in> set ys. mi_le cur (snd z) \<and> sum_list cur < sum_list (snd z)
                  \<and> mi_le (snd z) c" "sorted_wrt (<) (map (\<lambda>z. sum_list (snd z)) ys)"
    and sp4: "c = (if idx < length cur then cur[idx := cur ! idx + int ?k] else cur)"
    by blast+
  have ck: "is_cache_key n c"
  proof (cases "idx < n")
    case True
    from sp4 True len have "c = cur[idx := cur ! idx + int ?k]" by simp
    moreover have "0 \<le> cur ! idx + int ?k" using nn [OF True] by simp
    moreover have "cur ! idx + int ?k < 2 ^ 63" using ax [OF True] k [OF True] by simp
    ultimately show ?thesis using Cons.prems(1) by (simp add: is_cache_key_update)
  next
    case False
    with sp4 len have "c = cur" by simp
    with Cons.prems(1) show ?thesis by simp
  qed
  have yk: "is_cache_key n (snd z)" if "z \<in> set ys" for z
  proof -
    from sp(2) that have "mi_le cur (snd z)" "mi_le (snd z) c" by simp_all
    with Cons.prems(1) ck show ?thesis by (rule is_cache_key_between)
  qed
  show ?case
  proof (cases e)
    case (Some x)
    with Cons.prems(3) d st have "zs = ys" by simp
    with sp yk show ?thesis by simp
  next
    case None
    obtain zs' err' where w: "walk_axes (Suc idx) ds c = (zs', err')"
      by (cases "walk_axes (Suc idx) ds c") auto
    with Cons.prems(3) d st None have eq: "zs = ys @ zs'" by simp
    have rest: "\<forall>i<length ds. Suc idx + i < n \<longrightarrow>
        0 \<le> fst (ds ! i) \<and> c ! (Suc idx + i) + fst (ds ! i) < 2 ^ 63"
    proof (intro allI impI)
      fix i assume i: "i < length ds" and r: "Suc idx + i < n"
      from Cons.prems(2) [rule_format, of "Suc i"] i r
      have a: "0 \<le> fst (ds ! i) \<and> cur ! (Suc idx + i) + fst (ds ! i) < 2 ^ 63" by simp
      have "c ! (Suc idx + i) = cur ! (Suc idx + i)" unfolding sp4 by simp
      with a show "0 \<le> fst (ds ! i) \<and> c ! (Suc idx + i) + fst (ds ! i) < 2 ^ 63" by simp
    qed
    note ih = Cons.IH [OF ck rest w]
    have cs: "sum_list cur \<le> sum_list c" using sp by (simp add: mi_le_sum)
    have cl: "mi_le cur c" using sp by simp
    have 1: "is_cache_key n (snd z) \<and> mi_le cur (snd z) \<and> sum_list cur < sum_list (snd z)"
      if "z \<in> set zs" for z
    proof (cases "z \<in> set ys")
      case True
      with sp yk show ?thesis by simp
    next
      case False
      with that eq have "z \<in> set zs'" by simp
      with ih have "is_cache_key n (snd z)" "mi_le c (snd z)" "sum_list c < sum_list (snd z)"
        by simp_all
      with cl cs show ?thesis by (auto intro: mi_le_trans)
    qed
    have "sum_list (snd y) < sum_list (snd z)" if "y \<in> set ys" "z \<in> set zs'" for y z
    proof -
      from that sp have "sum_list (snd y) \<le> sum_list c" by (simp add: mi_le_sum)
      moreover from that ih have "sum_list c < sum_list (snd z)" by simp
      ultimately show ?thesis by simp
    qed
    then have 2: "sorted_wrt (<) (map (\<lambda>z. sum_list (snd z)) zs)"
      using sp ih eq by (simp add: sorted_wrt_append)
    from 1 2 show ?thesis by blast
  qed
qed

lemma sequence_props:
  assumes "is_cache_key n s"
    and "\<forall>dists. mi_dist e s = Inr dists \<longrightarrow>
           (\<forall>i<length dists. i < n \<longrightarrow> 0 \<le> dists ! i \<and> s ! i + dists ! i < 2 ^ 63)"
    and "get_derivative_taking_sequence vars s e = (zs, err)"
  shows "(\<forall>z \<in> set zs. is_cache_key n (snd z) \<and> mi_le s (snd z) \<and> sum_list s < sum_list (snd z))
     \<and> distinct (map snd zs)"
proof -
  have s: "np_array_int s = Inr s"
    using is_cache_key_int64 [OF assms(1)] by (rule np_array_int_Inr)
  have p: "(\<forall>z \<in> set zs. is_cache_key n (snd z) \<and> mi_le s (snd z) \<and> sum_list s < sum_list (snd z))
     \<and> sorted_wrt (<) (map (\<lambda>z. sum_list (snd z)) zs)"
  proof (cases "mi_dist e s")
    case (Inl x)
    with assms(3) s show ?thesis by (simp add: get_derivative_taking_sequence_def)
  next
    case (Inr dists)
    with assms(3) s have w: "walk_axes 0 (zip dists vars) s = (zs, err)"
      by (simp add: get_derivative_taking_sequence_def)
    from assms(2) Inr
    have d: "\<forall>i<length dists. i < n \<longrightarrow> 0 \<le> dists ! i \<and> s ! i + dists ! i < 2 ^ 63" by blast
    have "\<forall>i<length (zip dists vars). 0 + i < n \<longrightarrow>
        0 \<le> fst (zip dists vars ! i) \<and> s ! (0 + i) + fst (zip dists vars ! i) < 2 ^ 63"
      using d by simp
    with assms(1) show ?thesis using w by (rule walk_axes_props)
  qed
  then have "sorted_wrt (<) (map sum_list (map snd zs))" by (simp add: comp_def)
  then have "distinct (map sum_list (map snd zs))"
    using strict_sorted_iff by blast
  then have "distinct (map snd zs)" by (rule distinct_map [THEN iffD1, THEN conjunct1])
  with p show ?thesis by blast
qed

subsection \<open>The invariant of the cache\<close>

text \<open>
  Two elementwise operations on the same pair of arrays broadcast alike: at a position of
  the second array both results come from the same entry of the first.
\<close>

lemma np_binop_joint:
  assumes "np_binop f a b = Inr r" and "np_binop g a b = Inr s"
    and "i < length b" and "i < length r"
  shows "i < length s \<and> (\<exists>x \<in> set a. r ! i = f x (b ! i) \<and> s ! i = g x (b ! i))"
proof (cases "length a = length b")
  case True
  with assms have "r = map2 f a b" "s = map2 g a b" by (simp_all add: np_binop_def)
  with True assms(3) show ?thesis by (auto intro: bexI [of _ "a ! i"])
next
  case ne: False
  show ?thesis
  proof (cases "length a = 1")
    case True
    with ne assms have "r = map (f (hd a)) b" "s = map (g (hd a)) b"
      by (simp_all add: np_binop_def)
    moreover from True have "hd a \<in> set a" by (cases a) auto
    ultimately show ?thesis using assms(3) by (auto intro: bexI [of _ "hd a"])
  next
    case False
    with ne assms(1) have b1: "length b = 1" by (simp add: np_binop_def split: if_splits)
    with ne False assms have r: "r = map (\<lambda>x. f x (hd b)) a" and s: "s = map (\<lambda>x. g x (hd b)) a"
      by (simp_all add: np_binop_def)
    from b1 assms(3) have i: "i = 0" by simp
    from b1 have hb: "hd b = b ! 0" by (cases b) auto
    from assms(4) r have a: "i < length a" by simp
    then have "a ! i \<in> set a" by simp
    then show ?thesis using r s a i hb by (auto intro: bexI [of _ "a ! i"])
  qed
qed

lemma dominated_keys_subset:
  "dominated_keys mi ks = Inr l \<Longrightarrow> z \<in> set l \<Longrightarrow>
   fst z \<in> set ks \<and> dominates mi (fst z) = Inr True"
proof (induction ks arbitrary: l z)
  case Nil
  then show ?case by simp
next
  case (Cons k ks)
  show ?case
  proof (cases "dominated_keys mi ks")
    case (Inl e)
    with Cons.prems show ?thesis by (auto split: sum.splits bool.splits)
  next
    case (Inr l')
    with Cons.prems have "z \<in> set l' \<or> (fst z = k \<and> dominates mi k = Inr True)"
      by (auto split: sum.splits bool.splits)
    then show ?thesis
    proof
      assume "z \<in> set l'"
      with Inr have "fst z \<in> set ks \<and> dominates mi (fst z) = Inr True" by (rule Cons.IH)
      then show ?thesis by simp
    next
      assume "fst z = k \<and> dominates mi k = Inr True"
      then show ?thesis by simp
    qed
  qed
qed

lemma py_min_key_in:
  assumes "py_min_key l = Inr c"
  shows "c \<in> fst ` set l"
proof (cases l)
  case Nil
  with assms show ?thesis by (simp add: py_min_key_def)
next
  case (Cons x rest)
  let ?r = "fold (\<lambda>y m. if snd y < snd m then y else m) rest x"
  from assms Cons have "c = fst ?r" by (simp add: py_min_key_def)
  moreover have "?r \<in> set l" using fold_min_key [of rest x] Cons by simp
  ultimately show ?thesis by simp
qed

lemma get_closest_in_keys:
  assumes "get_closest_cached_mi cache mi = Inr c"
  shows "c \<in> fst ` set cache \<and> dominates mi c = Inr True"
proof -
  from assms obtain l where l: "dominated_keys mi (map fst cache) = Inr l"
    and m: "py_min_key l = Inr c"
    by (auto simp: get_closest_cached_mi_def split: sum.splits)
  from py_min_key_in [OF m] obtain z where "z \<in> set l" "c = fst z" by auto
  with dominated_keys_subset [OF l] show ?thesis by auto
qed

text \<open>
  Whatever the request, also one that numpy broadcasts: when the search returns a key,
  the distances from it, on the axes of the key, are not negative and lead to 64-bit
  entries.
\<close>

lemma closest_dists:
  assumes key: "is_cache_key n c" and dom: "dominates mi c = Inr True"
    and md: "mi_dist mi c = Inr dists" and i: "i < length dists" "i < n"
  shows "0 \<le> dists ! i \<and> c ! i + dists ! i < 2 ^ 63"
proof -
  from dom have m64: "list_all int64 mi"
    by (auto simp: dominates_def np_array_def split: if_splits)
  have c64: "list_all int64 c" using key by (rule is_cache_key_int64)
  from dom m64 c64 obtain ge where ge: "np_binop (\<lambda>x y. y \<le> x) mi c = Inr ge"
    and all: "list_all id ge"
    by (auto simp: dominates_def np_array_Inr split: sum.splits)
  from md m64 c64 have d: "np_binop (\<lambda>x y. wrap64 (x - y)) mi c = Inr dists"
    by (simp add: mi_dist_def np_array_int_Inr)
  from key i have ic: "i < length c" by (simp add: is_cache_key_def)
  from np_binop_joint [OF d ge ic i(1)] obtain x where ig: "i < length ge"
    and x: "x \<in> set mi" "dists ! i = wrap64 (x - c ! i)" "ge ! i = (c ! i \<le> x)"
    by blast
  from all ig x(3) have le: "c ! i \<le> x" by (simp add: list_all_length)
  from m64 x(1) have x64: "x < 2 ^ 63" by (simp add: list_all_iff int64_def)
  from key ic have c0: "0 \<le> c ! i" by (simp add: is_cache_key_def list_all_length)
  have "int64 (x - c ! i)" using le x64 c0 by (simp add: int64_def)
  then have "wrap64 (x - c ! i) = x - c ! i" by (rule wrap64_id)
  with x(2) le x64 show ?thesis by simp
qed

lemma cache_inv_update:
  assumes "cache_inv n base cache" and "is_cache_key n m" and "0 < sum_list m"
  shows "cache_inv n base (AList.update m e cache)"
proof -
  have ne: "replicate n 0 \<noteq> m" using assms(3) by (auto simp: sum_list_replicate)
  have keys: "fst ` set (AList.update m e cache) = {m} \<union> fst ` set cache"
    by (rule dom_update)
  have 1: "distinct (map fst (AList.update m e cache))"
    using assms(1) by (simp add: cache_inv_def distinct_update)
  have "is_cache_key n (fst x)" if "x \<in> set (AList.update m e cache)" for x
  proof -
    from that keys have "fst x = m \<or> fst x \<in> fst ` set cache" by blast
    with assms(1,2) show ?thesis by (auto simp: cache_inv_def list_all_iff)
  qed
  then have 2: "list_all (is_cache_key n) (map fst (AList.update m e cache))"
    by (simp add: list_all_iff)
  have 3: "map_of (AList.update m e cache) (replicate n 0) = Some base"
    using assms(1) ne by (simp add: cache_inv_def update_conv')
  from 1 2 3 show ?thesis by (simp add: cache_inv_def)
qed

lemma fold_diff_step_inv:
  "cache_inv n base cache \<Longrightarrow>
   \<forall>z \<in> set steps. is_cache_key n (snd z) \<and> 0 < sum_list (snd z) \<Longrightarrow>
   cache_inv n base (snd (fold diff_step steps (e, cache)))"
proof (induction steps arbitrary: e cache)
  case Nil
  then show ?case by simp
next
  case (Cons z steps)
  obtain v m where z: "z = (v, m)" by (cases z)
  have "cache_inv n base (AList.update m (Diff e v) cache)"
    using Cons.prems z by (auto intro: cache_inv_update)
  then show ?case
    using Cons.IH Cons.prems(2) z by (simp add: diff_step_def)
qed

lemma is_cache_key_sum: "is_cache_key n c \<Longrightarrow> 0 \<le> sum_list c"
  by (auto simp: is_cache_key_def list_all_iff intro: sum_list_nonneg)

lemma sequence_from_key:
  assumes "is_cache_key n c" and "dominates mi c = Inr True"
    and "get_derivative_taking_sequence vars c mi = (steps, err)"
  shows "\<forall>z \<in> set steps. is_cache_key n (snd z) \<and> 0 < sum_list (snd z)"
proof
  fix z assume z: "z \<in> set steps"
  have "\<forall>dists. mi_dist mi c = Inr dists \<longrightarrow>
           (\<forall>i<length dists. i < n \<longrightarrow> 0 \<le> dists ! i \<and> c ! i + dists ! i < 2 ^ 63)"
    using closest_dists [OF assms(1,2)] by blast
  from sequence_props [OF assms(1) this assms(3)] z
  have "is_cache_key n (snd z)" "sum_list c < sum_list (snd z)" by auto
  with is_cache_key_sum [OF assms(1)]
  show "is_cache_key n (snd z) \<and> 0 < sum_list (snd z)" by simp
qed

lemma diff_inv:
  assumes "cache_inv n base (cache_by_mi self)"
  shows "cache_inv n base (cache_by_mi (snd (diff self mi)))
     \<and> var_list (snd (diff self mi)) = var_list self"
proof (cases "map_of (cache_by_mi self) mi")
  case (Some e)
  with assms show ?thesis by (simp add: diff_def)
next
  case None
  show ?thesis
  proof (cases "get_closest_cached_mi (cache_by_mi self) mi")
    case (Inl e)
    with None assms show ?thesis by (simp add: diff_def)
  next
    case (Inr c)
    then have ck: "c \<in> fst ` set (cache_by_mi self)" and dom: "dominates mi c = Inr True"
      using get_closest_in_keys by blast+
    with assms have c: "is_cache_key n c" by (auto simp: cache_inv_def list_all_iff)
    show ?thesis
    proof (cases "map_of (cache_by_mi self) c")
      case None': None
      with None Inr assms show ?thesis by (simp add: diff_def)
    next
      case (Some e0)
      obtain steps err where sq:
        "get_derivative_taking_sequence (var_list self) c mi = (steps, err)"
        by (cases "get_derivative_taking_sequence (var_list self) c mi") auto
      have "cache_inv n base (snd (fold diff_step steps (e0, cache_by_mi self)))"
        using assms sequence_from_key [OF c dom sq] by (rule fold_diff_step_inv)
      then show ?thesis
        using None Inr Some sq by (auto simp: diff_def split: prod.splits)
    qed
  qed
qed

lemma diff_calls_inv:
  "cache_inv n base (cache_by_mi self) \<Longrightarrow>
   cache_inv n base (cache_by_mi (diff_calls self mis))
   \<and> var_list (diff_calls self mis) = var_list self"
proof (induction mis arbitrary: self)
  case Nil
  then show ?case by (simp add: diff_calls_def)
next
  case (Cons mi mis)
  from diff_inv [OF Cons.prems, of mi]
  have a: "cache_inv n base (cache_by_mi (snd (diff self mi)))"
    and b: "var_list (snd (diff self mi)) = var_list self" by simp_all
  from Cons.IH [OF a] b show ?case by (simp add: diff_calls_def)
qed

lemma init_inv:
  "cache_inv (length vars) base (cache_by_mi (MiDerivativeTaker_init base vars))"
  by (simp add: cache_inv_def MiDerivativeTaker_init_def is_cache_key_def list_all_iff)

text \<open>
  C10.  A derivative cache holds the all-zeros multi-index, mapped to the base expression,
  from its construction on and after any sequence of calls of \<open>diff\<close>, whatever their
  arguments and outcomes, also where the 64-bit arithmetic wraps around or numpy
  broadcasts.  So for every requested multi-index (entries not negative, with a total
  below \<open>2^63 - 1\<close>) the zero multi-index is a candidate of the closest-cached search,
  and the search returns a key.
\<close>

theorem zero_multi_index_always_cached:
  assumes "is_multi_index (length vars) mi"
  shows "map_of (cache_by_mi (diff_calls (MiDerivativeTaker_init base vars) mis))
           (replicate (length vars) 0) = Some base
     \<and> replicate (length vars) 0
           \<in> set (dominated_cached (cache_by_mi (diff_calls (MiDerivativeTaker_init base vars) mis)) mi)
     \<and> (\<exists>c. get_closest_cached_mi
               (cache_by_mi (diff_calls (MiDerivativeTaker_init base vars) mis)) mi = Inr c)"
proof -
  let ?s = "diff_calls (MiDerivativeTaker_init base vars) mis"
  have inv: "cache_inv (length vars) base (cache_by_mi ?s)"
    using diff_calls_inv [OF init_inv] by simp
  then have 1: "map_of (cache_by_mi ?s) (replicate (length vars) 0) = Some base"
    by (simp add: cache_inv_def)
  from is_multi_index_bounds [OF assms]
  have mi: "length mi = length vars" "list_all (\<lambda>x. 0 \<le> x) mi" "sum_list mi < 2 ^ 63"
    by simp_all
  have 2: "replicate (length vars) 0 \<in> set (dominated_cached (cache_by_mi ?s) mi)"
    using inv mi(1,2) by (rule cache_inv_dominated_nonempty)
  have 3: "\<exists>c. get_closest_cached_mi (cache_by_mi ?s) mi = Inr c"
    using get_closest_cached_mi_nearest [OF inv mi] by blast
  from 1 2 3 show ?thesis by blast
qed

text \<open>
  Two variables; the calls \<open>diff((2^63 - 1, 0))\<close> (where the bound of the range wraps
  around), \<open>diff((1,2))\<close>, \<open>diff((-1,3))\<close> (which raises) and \<open>diff((3,))\<close> (which
  numpy broadcasts); then the search for (2,1).
\<close>

theorem zero_multi_index_always_cached_witness:
  "is_multi_index (length [''x'', ''y'']) [2, 1]
   \<and> map_of (cache_by_mi (diff_calls (MiDerivativeTaker_init (Sym ''f'') [''x'', ''y''])
                [[2 ^ 63 - 1, 0], [1, 2], [- 1, 3], [3]]))
         (replicate (length [''x'', ''y'']) 0) = Some (Sym ''f'')
   \<and> get_closest_cached_mi
         (cache_by_mi (diff_calls (MiDerivativeTaker_init (Sym ''f'') [''x'', ''y''])
                [[2 ^ 63 - 1, 0], [1, 2], [- 1, 3], [3]])) [2, 1] = Inr [1, 1]"
proof -
  have a: "is_multi_index (length [''x'', ''y'']) [2, 1]" by code_simp
  have c: "get_closest_cached_mi
         (cache_by_mi (diff_calls (MiDerivativeTaker_init (Sym ''f'') [''x'', ''y''])
                [[2 ^ 63 - 1, 0], [1, 2], [- 1, 3], [3]])) [2, 1] = Inr [1, 1]" by code_simp
  from zero_multi_index_always_cached [OF a, of "Sym ''f''" "[[2 ^ 63 - 1, 0], [1, 2], [- 1, 3], [3]]"] a c
  show ?thesis by blast
qed

subsection \<open>The walk to a target that dominates its start\<close>

lemma steps_on_axis_in_range:
  "idx < length cur \<Longrightarrow> - (2 ^ 63) \<le> cur ! idx \<Longrightarrow> cur ! idx + int k < 2 ^ 63 \<Longrightarrow>
   steps_on_axis idx v k cur = (ys, c, err) \<Longrightarrow>
     err = None \<and> c = cur[idx := cur ! idx + int k]
     \<and> (0 < k \<longrightarrow> ys \<noteq> [] \<and> snd (last ys) = c) \<and> (k = 0 \<longrightarrow> ys = [])"
proof (induction k arbitrary: cur ys c err)
  case 0
  then show ?case by simp
next
  case (Suc k)
  let ?cur = "cur[idx := cur ! idx + 1]"
  from Suc.prems(2,3) have "int64 (cur ! idx + 1)" by (simp add: int64_def)
  then have w: "wrap64 (cur ! idx + 1) = cur ! idx + 1" by (rule wrap64_id)
  obtain ys' c' err' where r: "steps_on_axis idx v k ?cur = (ys', c', err')"
    by (cases "steps_on_axis idx v k ?cur") auto
  with Suc.prems(1,4) w have eq: "ys = (v, ?cur) # ys'" "c = c'" "err = err'" by auto
  have len: "idx < length ?cur" using Suc.prems(1) by simp
  have lo: "- (2 ^ 63) \<le> ?cur ! idx" using Suc.prems(1,2) by simp
  have hi: "?cur ! idx + int k < 2 ^ 63" using Suc.prems(1,3) by simp
  note ih = Suc.IH [OF len lo hi r]
  have c: "c = cur[idx := cur ! idx + int (Suc k)]"
    using ih eq Suc.prems(1) by (simp add: add.assoc)
  have l: "snd (last ys) = c"
  proof (cases k)
    case 0
    with ih eq show ?thesis by simp
  next
    case (Suc j)
    with ih eq show ?thesis by simp
  qed
  from ih eq c l show ?case by simp
qed

lemma mix_step:
  assumes "idx < length e" and "length s = length e"
  shows "(take idx e @ drop idx s)[idx := e ! idx] = take (Suc idx) e @ drop (Suc idx) s"
proof -
  have l: "length (take idx e) = idx" using assms(1) by simp
  have "take idx e @ drop idx s = take idx e @ s ! idx # drop (Suc idx) s"
    using assms by (simp add: Cons_nth_drop_Suc)
  then have "(take idx e @ drop idx s)[idx := e ! idx] = take idx e @ e ! idx # drop (Suc idx) s"
    using list_update_length [of "take idx e" "s ! idx" "drop (Suc idx) s" "e ! idx"] l by simp
  then show ?thesis using assms(1) by (simp add: take_Suc_conv_app_nth)
qed

lemma mix_nth:
  assumes "idx < length e" and "length s = length e"
  shows "(take idx e @ drop idx s) ! idx = s ! idx"
  using assms by (simp add: nth_append)

lemma mix_le:
  assumes "mi_le s e"
  shows "mi_le (take idx e @ drop idx s) e"
proof -
  from assms have len: "length s = length e" and le: "\<forall>i<length s. s ! i \<le> e ! i"
    by (auto simp: mi_le_def list_all2_conv_all_nth)
  have "(take idx e @ drop idx s) ! i \<le> e ! i" if "i < length e" for i
    using that le len by (auto simp: nth_append)
  then show ?thesis using len by (simp add: mi_le_def list_all2_conv_all_nth)
qed

lemma walk_axes_wf:
  assumes "length s = n" and "length e = n" and "length vars = n" and "mi_le s e"
    and "list_all (\<lambda>x. 0 \<le> x) s" and "list_all (\<lambda>x. x < 2 ^ 63 - 1) e"
  shows "idx \<le> n \<Longrightarrow>
     walk_axes idx (zip (drop idx (map2 (\<lambda>x y. x - y) e s)) (drop idx vars))
       (take idx e @ drop idx s) = (zs, err) \<Longrightarrow>
     err = None \<and> (\<forall>z \<in> set zs. mi_le (snd z) e)
     \<and> (zs \<noteq> [] \<longrightarrow> snd (last zs) = e) \<and> (zs = [] \<longrightarrow> take idx e @ drop idx s = e)"
proof (induction "n - idx" arbitrary: idx zs err)
  case 0
  then have "idx = n" by simp
  with 0 assms(1-3) show ?case by simp
next
  case (Suc d)
  then have lt: "idx < n" by simp
  let ?cur = "take idx e @ drop idx s"
  let ?k = "nat (e ! idx - s ! idx)"
  have le: "s ! idx \<le> e ! idx"
    using assms(1,2,4) lt by (auto simp: mi_le_def list_all2_conv_all_nth)
  have s0: "0 \<le> s ! idx" using assms(1,5) lt by (simp add: list_all_length)
  have e1: "e ! idx < 2 ^ 63 - 1" using assms(2,6) lt by (simp add: list_all_length)
  have rc: "nat (wrap64 (1 + (e ! idx - s ! idx)) - 1) = ?k"
    using le s0 e1 by (intro range_count) simp_all
  have d1: "drop idx (map2 (\<lambda>x y. x - y) e s)
      = (e ! idx - s ! idx) # drop (Suc idx) (map2 (\<lambda>x y. x - y) e s)"
    using assms(1-3) lt by (simp add: Cons_nth_drop_Suc [symmetric])
  have d2: "drop idx vars = vars ! idx # drop (Suc idx) vars"
    using assms(1-3) lt by (simp add: Cons_nth_drop_Suc)
  obtain ys c er where st: "steps_on_axis idx (vars ! idx) ?k ?cur = (ys, c, er)"
    by (cases "steps_on_axis idx (vars ! idx) ?k ?cur") auto
  have lc: "idx < length ?cur" using assms(1-3) lt by simp
  have cn: "?cur ! idx = s ! idx" using assms(1-3) lt by (simp add: mix_nth)
  have lo: "- (2 ^ 63) \<le> ?cur ! idx" unfolding cn using s0 by simp
  have hi: "?cur ! idx + int ?k < 2 ^ 63" unfolding cn using le e1 by simp
  note sr = steps_on_axis_in_range [OF lc lo hi st]
  have c: "c = take (Suc idx) e @ drop (Suc idx) s"
    using sr cn le assms(1-3) lt by (simp add: mix_step)
  obtain zs' err' where w: "walk_axes (Suc idx) (zip (drop (Suc idx) (map2 (\<lambda>x y. x - y) e s))
      (drop (Suc idx) vars)) (take (Suc idx) e @ drop (Suc idx) s) = (zs', err')"
    by (cases "walk_axes (Suc idx) (zip (drop (Suc idx) (map2 (\<lambda>x y. x - y) e s))
      (drop (Suc idx) vars)) (take (Suc idx) e @ drop (Suc idx) s)") auto
  have eq: "zs = ys @ zs'" "err = err'"
    using Suc.prems(2) st sr w c by (simp_all add: d1 d2 rc)
  have d: "d = n - Suc idx" using Suc.hyps(2) by simp
  have sl: "Suc idx \<le> n" using lt by simp
  note ih = Suc.hyps(1) [OF d sl w]
  have ce: "mi_le c e" unfolding c using assms(4) by (rule mix_le)
  have "idx < length ?cur \<longrightarrow> - (2 ^ 63) \<le> ?cur ! idx \<and> ?cur ! idx + int ?k < 2 ^ 63"
    using lo hi by simp
  from steps_on_axis_props [OF this st]
  have "\<forall>z \<in> set ys. mi_le (snd z) c" by blast
  then have ysle: "mi_le (snd z) e" if "z \<in> set ys" for z
    using that ce by (blast intro: mi_le_trans)
  have 1: "\<forall>z \<in> set zs. mi_le (snd z) e" using eq ysle ih by auto
  have 2: "snd (last zs) = e" if "zs \<noteq> []"
  proof (cases "zs' = []")
    case False
    with ih eq show ?thesis by simp
  next
    case True
    with that eq have "ys \<noteq> []" by simp
    with sr have "0 < ?k" by (cases "?k") auto
    with sr have "snd (last ys) = c" by simp
    moreover from True ih c have "c = e" by simp
    ultimately show ?thesis using True eq by simp
  qed
  have 3: "?cur = e" if "zs = []"
  proof -
    from that eq have y: "ys = []" and z: "zs' = []" by simp_all
    from y sr have "?k = 0" by (cases "?k") auto
    with sr have "c = ?cur[idx := ?cur ! idx]" by simp
    then have "c = ?cur" by simp
    moreover from z ih c have "c = e" by simp
    ultimately show ?thesis by simp
  qed
  from ih eq 1 2 3 show ?case by blast
qed

lemma sequence_wf:
  assumes "length s = n" and "length e = n" and "length vars = n" and "mi_le s e"
    and "list_all (\<lambda>x. 0 \<le> x) s" and "list_all (\<lambda>x. x < 2 ^ 63 - 1) e"
    and "get_derivative_taking_sequence vars s e = (zs, err)"
  shows "err = None \<and> (\<forall>z \<in> set zs. mi_le (snd z) e)
     \<and> (zs \<noteq> [] \<longrightarrow> snd (last zs) = e) \<and> (zs = [] \<longrightarrow> s = e)"
proof -
  have e: "list_all (\<lambda>x. x < 2 ^ 63) e"
    using assms(6) by (auto simp: list_all_iff)
  have md: "mi_dist e s = Inr (map2 (\<lambda>x y. x - y) e s)"
    using assms(4,5) e by (rule mi_dist_eq)
  have "list_all int64 s"
    unfolding list_all_length
  proof (intro allI impI)
    fix i assume i: "i < length s"
    with assms(4) have "s ! i \<le> e ! i" by (simp add: mi_le_def list_all2_conv_all_nth)
    moreover from e i assms(1,2) have "e ! i < 2 ^ 63" by (simp add: list_all_length)
    moreover from assms(5) i have "0 \<le> s ! i" by (simp add: list_all_length)
    ultimately show "int64 (s ! i)" by (simp add: int64_def)
  qed
  then have "np_array_int s = Inr s" by (rule np_array_int_Inr)
  with md assms(7) have "walk_axes 0 (zip (drop 0 (map2 (\<lambda>x y. x - y) e s)) (drop 0 vars))
       (take 0 e @ drop 0 s) = (zs, err)"
    by (simp add: get_derivative_taking_sequence_def)
  from walk_axes_wf [OF assms(1-6) _ this] show ?thesis by simp
qed

subsection \<open>Calls of diff\<close>

lemma walk_fresh:
  assumes inv: "cache_inv n base cache" and mi: "is_multi_index n mi"
    and vars: "length vars = n"
    and cl: "get_closest_cached_mi cache mi = Inr c"
    and sq: "get_derivative_taking_sequence vars c mi = (zs, err)"
  shows "err = None \<and> distinct (map snd zs) \<and> set (map snd zs) \<inter> fst ` set cache = {}
     \<and> (zs \<noteq> [] \<longrightarrow> snd (last zs) = mi) \<and> (zs = [] \<longrightarrow> c = mi)"
proof -
  from is_multi_index_bounds [OF mi]
  have lm: "length mi = n" and nn: "list_all (\<lambda>x. 0 \<le> x) mi" and sm: "sum_list mi < 2 ^ 63"
    by simp_all
  from get_closest_cached_mi_nearest [OF inv lm nn sm] cl
  have ck: "c \<in> fst ` set cache" and cle: "mi_le c mi"
    and cmin: "\<forall>k \<in> fst ` set cache. mi_le k mi \<longrightarrow> manhattan mi c \<le> manhattan mi k"
    by auto
  have key: "is_cache_key n c" using cache_inv_keys [OF inv] ck by simp
  then have lc: "length c = n" and c0: "list_all (\<lambda>x. 0 \<le> x) c"
    by (auto simp: is_cache_key_def list_all_iff)
  have m1: "list_all (\<lambda>x. x < 2 ^ 63 - 1) mi"
    unfolding list_all_iff
  proof
    fix x assume "x \<in> set mi"
    with nn have "x \<le> sum_list mi" by (rule nonneg_le_sum_list)
    with mi show "x < 2 ^ 63 - 1" by (simp add: is_multi_index_def)
  qed
  note wf = sequence_wf [OF lc lm vars cle c0 m1 sq]
  have dom: "dominates mi c = Inr True" using get_closest_in_keys [OF cl] by simp
  have "\<forall>dists. mi_dist mi c = Inr dists \<longrightarrow>
           (\<forall>i<length dists. i < n \<longrightarrow> 0 \<le> dists ! i \<and> c ! i + dists ! i < 2 ^ 63)"
    using closest_dists [OF key dom] by blast
  note pr = sequence_props [OF key this sq]
  have "snd z \<notin> fst ` set cache" if "z \<in> set zs" for z
  proof
    assume k: "snd z \<in> fst ` set cache"
    from that wf have zle: "mi_le (snd z) mi" by simp
    from that pr have lt: "sum_list c < sum_list (snd z)" by simp
    from cmin k zle have "manhattan mi c \<le> manhattan mi (snd z)" by blast
    then show False
      using lt by (simp add: manhattan_eq_sum_diff [OF cle] manhattan_eq_sum_diff [OF zle])
  qed
  then have "set (map snd zs) \<inter> fst ` set cache = {}" by auto
  with wf pr show ?thesis by simp
qed



lemma map_of_append_keep:
  "map_of al m = Some e \<Longrightarrow> map_of (al @ new) m = Some e"
  by (simp add: map_add_def)






subsection \<open>The recurrence-aware walk\<close>

lemma recurrence_terms_Inr:
  "recurrence_terms cache r = Inr ts \<longleftrightarrow>
     list_all (\<lambda>(ident, coeff). map_of cache ident \<noteq> None) r
     \<and> ts = map (\<lambda>(ident, coeff). Mul coeff (the (map_of cache ident))) r"
proof (induction r arbitrary: ts)
  case Nil
  then show ?case by auto
next
  case (Cons p r)
  obtain ident coeff where p: "p = (ident, coeff)" by (cases p)
  show ?case
  proof (cases "map_of cache ident")
    case None
    then show ?thesis by (simp add: p)
  next
    case (Some e)
    show ?thesis
    proof (cases "recurrence_terms cache r")
      case (Inl err)
      with Cons [of "map (\<lambda>(ident, coeff). Mul coeff (the (map_of cache ident))) r"] Some
      show ?thesis by (auto simp: p)
    next
      case (Inr ts')
      with Cons [of ts'] Some show ?thesis by (auto simp: p)
    qed
  qed
qed

lemma recurrence_walk_trace:
  "recurrence_walk w steps e c = (Inr e', c') \<Longrightarrow>
   \<exists>trace. length trace = Suc (length steps) \<and> trace ! 0 = (e, c)
     \<and> (\<forall>i<length steps. recurrence_aware_step w (steps ! i) (trace ! i) (trace ! Suc i))
     \<and> last trace = (e', c')"
proof (induction steps arbitrary: e c)
  case Nil
  then have "length [(e, c)] = Suc (length []) \<and> [(e, c)] ! 0 = (e, c) \<and> last [(e, c)] = (e', c')"
    by simp
  then show ?case by (intro exI [of _ "[(e, c)]"]) simp
next
  case (Cons st steps)
  obtain v m where st: "st = (v, m)" by (cases st)
  from Cons.prems obtain r where wr: "w m c = Inr r"
    by (cases "w m c") (auto simp: st)
  obtain e1 c1 where first: "recurrence_aware_step w st (e, c) (e1, c1)"
    and rest: "recurrence_walk w steps e1 c1 = (Inr e', c')"
  proof (cases r)
    case None
    let ?e = "Diff e v"
    have "recurrence_aware_step w st (e, c) (?e, AList.update m ?e c)"
      using wr None by (simp add: recurrence_aware_step_def st)
    moreover have "recurrence_walk w steps ?e (AList.update m ?e c) = (Inr e', c')"
      using Cons.prems wr None by (simp add: st)
    ultimately show ?thesis using that by blast
  next
    case (Some rel)
    from Cons.prems wr Some obtain ts where ts: "recurrence_terms c rel = Inr ts"
      by (cases "recurrence_terms c rel") (auto simp: st)
    then have ok: "list_all (\<lambda>(ident, coeff). map_of c ident \<noteq> None) rel"
      and tv: "Add ts = weighted_sum c rel"
      by (simp_all add: recurrence_terms_Inr weighted_sum_def)
    have "recurrence_aware_step w st (e, c) (Add ts, AList.update m (Add ts) c)"
      using wr Some ok tv by (simp add: recurrence_aware_step_def st)
    moreover have "recurrence_walk w steps (Add ts) (AList.update m (Add ts) c) = (Inr e', c')"
      using Cons.prems wr Some ts by (simp add: st)
    ultimately show ?thesis using that by blast
  qed
  from Cons.IH [OF rest] obtain trace where
    len: "length trace = Suc (length steps)" and hd: "trace ! 0 = (e1, c1)"
    and stp: "\<forall>i<length steps. recurrence_aware_step w (steps ! i) (trace ! i) (trace ! Suc i)"
    and la: "last trace = (e', c')" by blast
  let ?trace = "(e, c) # trace"
  have ne: "trace \<noteq> []" using len by auto
  have "recurrence_aware_step w ((st # steps) ! i) (?trace ! i) (?trace ! Suc i)"
    if "i < length (st # steps)" for i
  proof (cases i)
    case 0
    then show ?thesis using first hd by simp
  next
    case (Suc j)
    with that stp show ?thesis by simp
  qed
  moreover have "length ?trace = Suc (length (st # steps))" using len by simp
  moreover have "?trace ! 0 = (e, c)" by simp
  moreover have "last ?trace = (e', c')" using la ne by simp
  ultimately show ?case by blast
qed

lemma recurrence_walk_sound:
  assumes "wrangler_sound w"
  shows "\<exists>e' c'. recurrence_walk w steps e c = (Inr e', c')"
proof (induction steps arbitrary: e c)
  case Nil
  then show ?case by simp
next
  case (Cons st steps)
  obtain v m where st: "st = (v, m)" by (cases st)
  from assms have s: "case w m c of Inl e \<Rightarrow> False | Inr None \<Rightarrow> True
      | Inr (Some r) \<Rightarrow> list_all (\<lambda>(ident, coeff). map_of c ident \<noteq> None) r"
    unfolding wrangler_sound_def by blast
  show ?case
  proof (cases "w m c")
    case (Inl err)
    with s show ?thesis by simp
  next
    case (Inr r)
    show ?thesis
    proof (cases r)
      case None
      with Inr Cons.IH [of "Diff e v" "AList.update m (Diff e v) c"] show ?thesis
        by (simp add: st)
    next
      case (Some rel)
      with s Inr have "list_all (\<lambda>(ident, coeff). map_of c ident \<noteq> None) rel" by simp
      then obtain ts where ts: "recurrence_terms c rel = Inr ts"
        by (simp add: recurrence_terms_Inr)
      with Inr Some Cons.IH [of "Add ts" "AList.update m (Add ts) c"] show ?thesis
        by (simp add: st)
    qed
  qed
qed

lemma LinearRecurrenceBased_diff_returns:
  assumes nc: "map_of (cache_by_mi self) mi = None"
    and nm: "map_of (memoize_dic_diff self) mi = None"
    and run: "LinearRecurrenceBased_diff w self mi = (Inr expr, self')"
  shows "\<exists>closest_mi e0 steps.
       get_closest_cached_mi (cache_by_mi self) mi = Inr closest_mi
     \<and> map_of (cache_by_mi self) closest_mi = Some e0
     \<and> get_derivative_taking_sequence (var_list self) closest_mi mi = (steps, None)
     \<and> recurrence_walk w steps e0 (cache_by_mi self) = (Inr expr, cache_by_mi self')"
proof -
  obtain res s1 where body: "LinearRecurrenceBased_diff_body w self mi = (res, s1)"
    by (cases "LinearRecurrenceBased_diff_body w self mi") auto
  with run nm have res: "res = Inr expr" and s': "cache_by_mi self' = cache_by_mi s1"
    by (auto simp: LinearRecurrenceBased_diff_def split: sum.splits)
  from body nc res obtain c where c: "get_closest_cached_mi (cache_by_mi self) mi = Inr c"
    by (cases "get_closest_cached_mi (cache_by_mi self) mi")
      (auto simp: LinearRecurrenceBased_diff_body_def)
  from body nc res c obtain e0 where e0: "map_of (cache_by_mi self) c = Some e0"
    by (cases "map_of (cache_by_mi self) c") (auto simp: LinearRecurrenceBased_diff_body_def)
  obtain steps err where sq: "get_derivative_taking_sequence (var_list self) c mi = (steps, err)"
    by (cases "get_derivative_taking_sequence (var_list self) c mi") auto
  obtain r cache' where rw: "recurrence_walk w steps e0 (cache_by_mi self) = (r, cache')"
    by (cases "recurrence_walk w steps e0 (cache_by_mi self)") auto
  from body nc res c e0 sq rw have "r = Inr expr" "err = None" "cache_by_mi s1 = cache'"
    by (auto simp: LinearRecurrenceBased_diff_body_def split: sum.splits option.splits)
  with c e0 sq rw s' show ?thesis by auto
qed

lemma LinearRecurrenceBased_diff_total:
  assumes nc: "map_of (cache_by_mi self) mi = None"
    and nm: "map_of (memoize_dic_diff self) mi = None"
    and inv: "cache_inv (length (var_list self)) base (cache_by_mi self)"
    and mi: "is_multi_index (length (var_list self)) mi"
    and ws: "wrangler_sound w"
  shows "\<exists>expr self'. LinearRecurrenceBased_diff w self mi = (Inr expr, self')"
proof -
  from is_multi_index_bounds [OF mi]
  have lm: "length mi = length (var_list self)" and nn: "list_all (\<lambda>x. 0 \<le> x) mi"
    and sm: "sum_list mi < 2 ^ 63"
    by simp_all
  from get_closest_cached_mi_nearest [OF inv lm nn sm] obtain c where
    cl: "get_closest_cached_mi (cache_by_mi self) mi = Inr c"
    and ck: "c \<in> fst ` set (cache_by_mi self)" by blast
  from ck obtain e0 where e0: "map_of (cache_by_mi self) c = Some e0"
    by (metis map_of_eq_None_iff not_Some_eq)
  obtain zs err where sq: "get_derivative_taking_sequence (var_list self) c mi = (zs, err)"
    by (cases "get_derivative_taking_sequence (var_list self) c mi") auto
  from walk_fresh [OF inv mi refl cl sq] have err: "err = None" by simp
  from recurrence_walk_sound [OF ws] obtain e' c' where
    rw: "recurrence_walk w zs e0 (cache_by_mi self) = (Inr e', c')" by blast
  have "LinearRecurrenceBased_diff_body w self mi = (Inr e', self\<lparr>cache_by_mi := c'\<rparr>)"
    using nc cl e0 sq err rw by (simp add: LinearRecurrenceBased_diff_body_def)
  with nm show ?thesis by (simp add: LinearRecurrenceBased_diff_def)
qed


text \<open>
  C2.  For a multi-index that is in neither dictionary of the recurrence-aware cache (the
  cache and the memoized results), a call of \<open>diff\<close> that returns has walked the
  derivative-taking sequence from the closest cached multi-index, and every step of the
  walk is a recurrence-aware step: the oracle is asked about the new multi-index with the
  cache as it is at that step; a relation makes the new value the weighted sum of the
  cached values it names, no relation makes it the derivative of the current expression
  along the step's variable; the value is cached.  The call returns whenever the cache
  satisfies its invariant, the argument is a multi-index (entries not negative, with a
  total below \<open>2^63 - 1\<close>) and the oracle never raises and names only cached
  multi-indices.
\<close>

theorem recurrence_aware_diff_steps:
  assumes nc: "map_of (cache_by_mi self) mi = None"
    and nm: "map_of (memoize_dic_diff self) mi = None"
  shows "(\<forall>expr self'. LinearRecurrenceBased_diff w self mi = (Inr expr, self') \<longrightarrow>
           (\<exists>closest_mi e0 steps trace.
              get_closest_cached_mi (cache_by_mi self) mi = Inr closest_mi
            \<and> map_of (cache_by_mi self) closest_mi = Some e0
            \<and> get_derivative_taking_sequence (var_list self) closest_mi mi = (steps, None)
            \<and> length trace = Suc (length steps) \<and> trace ! 0 = (e0, cache_by_mi self)
            \<and> (\<forall>i<length steps.
                  recurrence_aware_step w (steps ! i) (trace ! i) (trace ! Suc i))
            \<and> last trace = (expr, cache_by_mi self')))
       \<and> (cache_inv (length (var_list self)) base (cache_by_mi self)
            \<and> is_multi_index (length (var_list self)) mi \<and> wrangler_sound w \<longrightarrow>
          (\<exists>expr self'. LinearRecurrenceBased_diff w self mi = (Inr expr, self')))"
proof (intro conjI allI impI)
  fix expr self'
  assume run: "LinearRecurrenceBased_diff w self mi = (Inr expr, self')"
  from LinearRecurrenceBased_diff_returns [OF nc nm run] obtain c e0 steps where
    a: "get_closest_cached_mi (cache_by_mi self) mi = Inr c"
    and b: "map_of (cache_by_mi self) c = Some e0"
    and s: "get_derivative_taking_sequence (var_list self) c mi = (steps, None)"
    and rw: "recurrence_walk w steps e0 (cache_by_mi self) = (Inr expr, cache_by_mi self')"
    by blast
  from recurrence_walk_trace [OF rw] obtain trace where
    "length trace = Suc (length steps)" "trace ! 0 = (e0, cache_by_mi self)"
    "\<forall>i<length steps. recurrence_aware_step w (steps ! i) (trace ! i) (trace ! Suc i)"
    "last trace = (expr, cache_by_mi self')" by blast
  with a b s show "\<exists>closest_mi e0 steps trace.
              get_closest_cached_mi (cache_by_mi self) mi = Inr closest_mi
            \<and> map_of (cache_by_mi self) closest_mi = Some e0
            \<and> get_derivative_taking_sequence (var_list self) closest_mi mi = (steps, None)
            \<and> length trace = Suc (length steps) \<and> trace ! 0 = (e0, cache_by_mi self)
            \<and> (\<forall>i<length steps.
                  recurrence_aware_step w (steps ! i) (trace ! i) (trace ! Suc i))
            \<and> last trace = (expr, cache_by_mi self')" by blast
next
  assume "cache_inv (length (var_list self)) base (cache_by_mi self)
            \<and> is_multi_index (length (var_list self)) mi \<and> wrangler_sound w"
  then show "\<exists>expr self'. LinearRecurrenceBased_diff w self mi = (Inr expr, self')"
    using LinearRecurrenceBased_diff_total [OF nc nm] by blast
qed


text \<open>
  Two variables, an oracle that relates (0,2) to (2,0) with coefficient \<open>-1\<close> once (2,0)
  is cached, and the cache left by \<open>diff((2,0))\<close>.  \<open>diff((0,2))\<close> walks from (0,0):
  (0,1) has no relation and is differentiated along \<open>y\<close>; (0,2) has one and becomes
  \<open>-1\<close> times the entry of (2,0).
\<close>

theorem recurrence_aware_diff_steps_witness:
  "map_of (cache_by_mi
      \<lparr>var_list = [''x'', ''y''],
        cache_by_mi = [([0, 0], Sym ''f''), ([1, 0], Diff (Sym ''f'') ''x''),
                       ([2, 0], Diff (Diff (Sym ''f'') ''x'') ''x'')],
        memoize_dic_diff = [([2, 0], Diff (Diff (Sym ''f'') ''x'') ''x'')]\<rparr>) [0, 2] = None
   \<and> map_of (memoize_dic_diff
      \<lparr>var_list = [''x'', ''y''],
        cache_by_mi = [([0, 0], Sym ''f''), ([1, 0], Diff (Sym ''f'') ''x''),
                       ([2, 0], Diff (Diff (Sym ''f'') ''x'') ''x'')],
        memoize_dic_diff = [([2, 0], Diff (Diff (Sym ''f'') ''x'') ''x'')]\<rparr>) [0, 2] = None
   \<and> wrangler_sound
        (\<lambda>m c. if m = [0, 2] \<and> map_of c [2, 0] \<noteq> None
            then Inr (Some [([2, 0], Num (- 1))]) else Inr None)
   \<and> (\<exists>expr self'. LinearRecurrenceBased_diff
        (\<lambda>m c. if m = [0, 2] \<and> map_of c [2, 0] \<noteq> None
            then Inr (Some [([2, 0], Num (- 1))]) else Inr None)
      \<lparr>var_list = [''x'', ''y''],
        cache_by_mi = [([0, 0], Sym ''f''), ([1, 0], Diff (Sym ''f'') ''x''),
                       ([2, 0], Diff (Diff (Sym ''f'') ''x'') ''x'')],
        memoize_dic_diff = [([2, 0], Diff (Diff (Sym ''f'') ''x'') ''x'')]\<rparr> [0, 2] = (Inr expr, self'))
   \<and> fst (LinearRecurrenceBased_diff
        (\<lambda>m c. if m = [0, 2] \<and> map_of c [2, 0] \<noteq> None
            then Inr (Some [([2, 0], Num (- 1))]) else Inr None)
      \<lparr>var_list = [''x'', ''y''],
        cache_by_mi = [([0, 0], Sym ''f''), ([1, 0], Diff (Sym ''f'') ''x''),
                       ([2, 0], Diff (Diff (Sym ''f'') ''x'') ''x'')],
        memoize_dic_diff = [([2, 0], Diff (Diff (Sym ''f'') ''x'') ''x'')]\<rparr> [0, 2])
     = Inr (Add [Mul (Num (- 1)) (Diff (Diff (Sym ''f'') ''x'') ''x'')])
   \<and> cache_by_mi (snd (LinearRecurrenceBased_diff
        (\<lambda>m c. if m = [0, 2] \<and> map_of c [2, 0] \<noteq> None
            then Inr (Some [([2, 0], Num (- 1))]) else Inr None)
      \<lparr>var_list = [''x'', ''y''],
        cache_by_mi = [([0, 0], Sym ''f''), ([1, 0], Diff (Sym ''f'') ''x''),
                       ([2, 0], Diff (Diff (Sym ''f'') ''x'') ''x'')],
        memoize_dic_diff = [([2, 0], Diff (Diff (Sym ''f'') ''x'') ''x'')]\<rparr> [0, 2]))
     = [([0, 0], Sym ''f''), ([1, 0], Diff (Sym ''f'') ''x''),
        ([2, 0], Diff (Diff (Sym ''f'') ''x'') ''x''),
        ([0, 1], Diff (Sym ''f'') ''y''),
        ([0, 2], Add [Mul (Num (- 1)) (Diff (Diff (Sym ''f'') ''x'') ''x'')])]"
proof -
  let ?w = "(\<lambda>m c. if m = [0, 2] \<and> map_of c [2, 0] \<noteq> None
            then Inr (Some [([2, 0], Num (- 1))]) else Inr None) :: wrangler"
  let ?s = "\<lparr>var_list = [''x'', ''y''],
        cache_by_mi = [([0, 0], Sym ''f''), ([1, 0], Diff (Sym ''f'') ''x''),
                       ([2, 0], Diff (Diff (Sym ''f'') ''x'') ''x'')],
        memoize_dic_diff = [([2, 0], Diff (Diff (Sym ''f'') ''x'') ''x'')]\<rparr>"
  have nc: "map_of (cache_by_mi ?s) [0, 2] = None" by simp
  have nm: "map_of (memoize_dic_diff ?s) [0, 2] = None" by simp
  have inv: "cache_inv (length (var_list ?s)) (Sym ''f'') (cache_by_mi ?s)"
    by (simp add: cache_inv_def is_cache_key_def)
  have mi: "is_multi_index (length (var_list ?s)) [0, 2]"
    by (simp add: is_multi_index_def)
  have ws: "wrangler_sound ?w" by (simp add: wrangler_sound_def)
  from recurrence_aware_diff_steps [OF nc nm, of ?w "Sym ''f''"] inv mi ws
  have ex: "\<exists>expr self'. LinearRecurrenceBased_diff ?w ?s [0, 2] = (Inr expr, self')"
    by blast
  have r: "fst (LinearRecurrenceBased_diff ?w ?s [0, 2])
     = Inr (Add [Mul (Num (- 1)) (Diff (Diff (Sym ''f'') ''x'') ''x'')])"
    by code_simp
  have c: "cache_by_mi (snd (LinearRecurrenceBased_diff ?w ?s [0, 2]))
     = [([0, 0], Sym ''f''), ([1, 0], Diff (Sym ''f'') ''x''),
        ([2, 0], Diff (Diff (Sym ''f'') ''x'') ''x''),
        ([0, 1], Diff (Sym ''f'') ''y''),
        ([0, 2], Add [Mul (Num (- 1)) (Diff (Diff (Sym ''f'') ''x'') ''x'')])]"
    by code_simp
  from nc nm ws ex r c show ?thesis by blast
qed

end
